theory Spec2Isabelle
  imports Complex_Main
begin

section \<open>JavaScript values, objects and the heap\<close>

text \<open>
  The settings that \<^verbatim>\<open>nudify.js\<close> and \<^verbatim>\<open>photo.js\<close> read are plain JavaScript
  objects that are shared by reference.  Objects live in a heap (a list, the address of an object
  is its index); a value is a primitive or a reference to an object.  An object is the list of its
  own enumerable properties in insertion order.
\<close>

type_synonym addr = nat

datatype val = Undefined | Null | Bool bool | Num rat | Str string | Ref addr

type_synonym obj = "(string \<times> val) list"

type_synonym heap = "obj list"

text \<open>
  What the code can throw: a \<^verbatim>\<open>TypeError\<close> of the language (property access on
  \<^verbatim>\<open>undefined\<close>), an \<^verbatim>\<open>AppError(message, {title, level})\<close>, or the value a
  rejected promise of an external helper carries.  The last three are not errors of the program:
  \<open>NoObject\<close> stands for an address without an object, which cannot arise in JavaScript, where
  a reference keeps its object alive; \<open>NotModelled\<close> marks an input whose treatment by the
  language the model does not cover; \<open>NotEnabled\<close> marks a queue event that the queue does not
  raise in the given state.
\<close>

datatype error =
    TypeError
  | AppError string string string
  | Rejected val
  | NoObject
  | NotModelled
  | NotEnabled

definition lookup :: "'a list \<Rightarrow> nat \<Rightarrow> 'a option" where
  "lookup xs i = (if i < length xs then Some (xs ! i) else None)"

text \<open>\<^verbatim>\<open>v.k\<close>: reading a property.\<close>

definition get_prop :: "heap \<Rightarrow> val \<Rightarrow> string \<Rightarrow> error + val" where
  "get_prop h v k =
     (case v of
        Undefined \<Rightarrow> Inl TypeError
      | Null \<Rightarrow> Inl TypeError
      | Ref a \<Rightarrow>
          (case lookup h a of
             None \<Rightarrow> Inl NoObject
           | Some ob \<Rightarrow> Inr (case map_of ob k of None \<Rightarrow> Undefined | Some x \<Rightarrow> x))
      | _ \<Rightarrow> Inr Undefined)"

text \<open>\<^verbatim>\<open>v.k1.k2...\<close>: reading along a path of property names.\<close>

fun get_path :: "heap \<Rightarrow> val \<Rightarrow> string list \<Rightarrow> error + val" where
  "get_path h v [] = Inr v"
| "get_path h v (k # ks) =
     (case get_prop h v k of Inl e \<Rightarrow> Inl e | Inr x \<Rightarrow> get_path h x ks)"

fun put :: "string \<Rightarrow> 'v \<Rightarrow> (string \<times> 'v) list \<Rightarrow> (string \<times> 'v) list" where
  "put k x [] = [(k, x)]"
| "put k x ((k', y) # ob) = (if k' = k then (k, x) # ob else (k', y) # put k x ob)"

text \<open>\<^verbatim>\<open>v.k = x\<close> in a module (strict mode): writing a property of a primitive throws.\<close>

definition set_prop :: "heap \<Rightarrow> val \<Rightarrow> string \<Rightarrow> val \<Rightarrow> error + heap" where
  "set_prop h v k x =
     (case v of
        Ref a \<Rightarrow>
          (case lookup h a of
             None \<Rightarrow> Inl NoObject
           | Some ob \<Rightarrow> Inr (h[a := put k x ob]))
      | _ \<Rightarrow> Inl TypeError)"

text \<open>\<^verbatim>\<open>v.k1. ... .kn = x\<close>.\<close>

definition set_path :: "heap \<Rightarrow> val \<Rightarrow> string list \<Rightarrow> val \<Rightarrow> error + heap" where
  "set_path h v ks x =
     (case ks of
        [] \<Rightarrow> Inr h
      | _ \<Rightarrow>
          (case get_path h v (butlast ks) of
             Inl e \<Rightarrow> Inl e
           | Inr parent \<Rightarrow> set_prop h parent (last ks) x))"

text \<open>
  lodash \<^verbatim>\<open>clone\<close>: a shallow copy.  A plain object gets a new object with the same own
  properties, whose values are copied as they are, references included; a primitive is returned
  as it is.
\<close>

definition clone :: "heap \<Rightarrow> val \<Rightarrow> heap \<times> val" where
  "clone h v =
     (case v of
        Ref a \<Rightarrow>
          (case lookup h a of
             None \<Rightarrow> (h, v)
           | Some ob \<Rightarrow> (h @ [ob], Ref (length h)))
      | _ \<Rightarrow> (h, v))"

text \<open>JavaScript truthiness, as \<^verbatim>\<open>!x\<close> and \<^verbatim>\<open>x || y\<close> use it.\<close>

fun truthy :: "val \<Rightarrow> bool" where
  "truthy Undefined = False"
| "truthy Null = False"
| "truthy (Bool b) = b"
| "truthy (Num n) = (n \<noteq> 0)"
| "truthy (Str s) = (s \<noteq> [])"
| "truthy (Ref a) = True"

section \<open>Collaborators of the two modules\<close>

text \<open>
  Modelled from the spec: the class \<^verbatim>\<open>File\<close> of module \<^verbatim>\<open>../file\<close>, which is not among
  the sources.  The file identity contract exposes an existence check, the MIME type, the on-disk
  path and a content hash; \<^verbatim>\<open>fullname\<close> is the name the messages print.
\<close>

record File =
  md5 :: string
  exists :: bool
  mimetype :: string
  path :: string
  fullname :: string

text \<open>
  Modelled from the spec: the class \<^verbatim>\<open>Timer\<close> of module \<^verbatim>\<open>../timer\<close>, the duration timer
  of an item, which is started and stopped.
\<close>

record Timer =
  ticking :: bool

definition new_Timer :: Timer where
  "new_Timer = \<lparr>ticking = False\<rparr>"

definition timer_start :: "Timer \<Rightarrow> Timer" where
  "timer_start t = t\<lparr>ticking := True\<rparr>"

definition timer_stop :: "Timer \<Rightarrow> Timer" where
  "timer_stop t = t\<lparr>ticking := False\<rparr>"

text \<open>
  Modelled from the spec: the class \<^verbatim>\<open>PhotoRun\<close> of module \<^verbatim>\<open>./photo-run\<close>, the work unit.
  Its identity is the 1-based sequence index within its item, its status mirrors the scheduler
  lifecycle (queued, started, finished, failed), \<^verbatim>\<open>cancel()\<close> requests a cooperative abort,
  and the lifecycle hooks \<^verbatim>\<open>onStart\<close>, \<^verbatim>\<open>onFinish\<close>, \<^verbatim>\<open>onFail\<close> are called by the
  owning queue.
\<close>

datatype run_status = Queued | Started | Finished | Failed

record PhotoRun =
  run_id :: int
  run_status :: run_status
  cancel_requested :: bool

definition new_PhotoRun :: "int \<Rightarrow> PhotoRun" where
  "new_PhotoRun it = \<lparr>run_id = it, run_status = Queued, cancel_requested = False\<rparr>"

definition run_onStart :: "PhotoRun \<Rightarrow> PhotoRun" where
  "run_onStart run = run\<lparr>run_status := Started\<rparr>"

definition run_onFinish :: "PhotoRun \<Rightarrow> PhotoRun" where
  "run_onFinish run = run\<lparr>run_status := Finished\<rparr>"

definition run_onFail :: "PhotoRun \<Rightarrow> PhotoRun" where
  "run_onFail run = run\<lparr>run_status := Failed\<rparr>"

definition run_cancel :: "PhotoRun \<Rightarrow> PhotoRun" where
  "run_cancel run = run\<lparr>cancel_requested := True\<rparr>"

definition run_reset :: "PhotoRun \<Rightarrow> PhotoRun" where
  "run_reset run = run\<lparr>run_status := Queued, cancel_requested := False\<rparr>"

text \<open>
  Modelled from the spec: the class \<^verbatim>\<open>Queue\<close>, which the sources import from the package
  \<^verbatim>\<open>better-queue\<close> and configure.  The contract the specification gives is a task runner with a
  maximal concurrency, a batch size, a per-task timeout, a delay between tasks, an in-memory
  store, and the lifecycle callbacks enqueued, started, finished, failed and drained.  A task is
  identified by its \<^verbatim>\<open>id\<close> property.  \<open>store\<close> holds the queued tasks in arrival order,
  \<open>workers\<close> the tasks handed to the task function that have not completed.
\<close>

record ('i, 't) Queue =
  maxTimeout :: nat
  afterProcessDelay :: nat
  batchSize :: nat
  concurrent :: nat
  store :: "('i \<times> 't) list"
  workers :: "('i \<times> 't) list"

text \<open>\<^verbatim>\<open>queue.push(task)\<close>: a task whose id is already stored replaces the stored task.\<close>

definition q_push :: "'i \<Rightarrow> 't \<Rightarrow> ('i, 't) Queue \<Rightarrow> ('i, 't) Queue" where
  "q_push i t q =
     q\<lparr>store :=
         (if i \<in> fst ` set (store q)
          then map (\<lambda>(j, u). if j = i then (j, t) else (j, u)) (store q)
          else store q @ [(i, t)])\<rparr>"

text \<open>The store's \<^verbatim>\<open>deleteTask(id)\<close>, the second half of \<^verbatim>\<open>queue.cancel(id, cb)\<close>.\<close>

definition q_delete :: "'i \<Rightarrow> ('i, 't) Queue \<Rightarrow> ('i, 't) Queue" where
  "q_delete i q = q\<lparr>store := filter (\<lambda>(j, u). j \<noteq> i) (store q)\<rparr>"

text \<open>The queue may hand its next task to the task function.\<close>

definition q_ready :: "('i, 't) Queue \<Rightarrow> bool" where
  "q_ready q \<longleftrightarrow> length (workers q) < concurrent q \<and> store q \<noteq> []"

text \<open>The queue has nothing stored and nothing in process.\<close>

definition q_idle :: "('i, 't) Queue \<Rightarrow> bool" where
  "q_idle q \<longleftrightarrow> store q = [] \<and> workers q = []"

section \<open>The state of the application\<close>

text \<open>
  The item controller, class \<^verbatim>\<open>Photo\<close>.  \<open>status\<close> is the field \<^verbatim>\<open>_status\<close>;
  \<open>run_objs\<close> holds the \<^verbatim>\<open>PhotoRun\<close> objects this photo has created (the address of a run is
  its index), \<open>runs\<close> is the array \<^verbatim>\<open>this.runs\<close> of references to them, and the tasks of
  \<open>queue\<close> are such references too.  \<open>preferences\<close> is the value \<^verbatim>\<open>this.preferences\<close>, a
  reference into the heap.  \<open>awaiting\<close> counts the callers of \<^verbatim>\<open>start()\<close> that are suspended
  on the \<^verbatim>\<open>finish\<close> event of \<^verbatim>\<open>this.events\<close>.  \<open>cropper\<close> is \<open>None\<close> while the crop tool has
  never been opened.  The fields \<^verbatim>\<open>fileCropped\<close>, \<^verbatim>\<open>model\<close>, \<^verbatim>\<open>overlay\<close> and
  \<^verbatim>\<open>_logger\<close> are left out: the operations below do not depend on them, and the calls of
  the logger are not effects of the model.
\<close>

record Photo =
  photo_id :: string
  "file" :: File
  status :: string
  queue :: "(int, addr) Queue"
  run_objs :: "PhotoRun list"
  runs :: "addr list"
  preferences :: val
  timer :: Timer
  cropper :: "unit option"
  awaiting :: nat

text \<open>
  The settings service as the two modules read it: three scalars, and the object
  \<^verbatim>\<open>settings.preferences\<close>, which lives in the heap.
\<close>

record Settings =
  app_uploadMode :: val
  processing_device :: val
  notifications_allRuns :: val
  settings_preferences :: val

text \<open>What the two modules do to the outside, in the order it happens.\<close>

datatype effect =
    EmitUpdate  \<comment> \<open>a call of \<^verbatim>\<open>Nudify.emitUpdate()\<close>\<close>
  | PhotoEmit addr string  \<comment> \<open>\<^verbatim>\<open>photo.events.emit(name)\<close>\<close>
  | Notification string string  \<comment> \<open>\<^verbatim>\<open>new Notification(title, {body})\<close>\<close>
  | Handle val  \<comment> \<open>\<^verbatim>\<open>AppError.handle(error)\<close>\<close>
  | RouterPush string  \<comment> \<open>\<^verbatim>\<open>window.$router.push(location)\<close>\<close>
  | EngineStart addr int  \<comment> \<open>\<^verbatim>\<open>run.start()\<close> of a run of a photo\<close>
  | EngineCancel addr int  \<comment> \<open>\<^verbatim>\<open>run.cancel()\<close> of a run of a photo\<close>
  | WriteCrop addr  \<comment> \<open>\<^verbatim>\<open>fileCropped.writeDataURL(dataURL)\<close>\<close>

text \<open>
  The state after \<^verbatim>\<open>Nudify.setup()\<close>.  \<open>photo_objs\<close> holds the \<^verbatim>\<open>Photo\<close> objects that are
  referenced from the registry or a queue (the address of a photo is its index), \<open>photos\<close> is the
  array \<^verbatim>\<open>Nudify.photos\<close> and \<open>nudify_queue\<close> the global queue \<^verbatim>\<open>Nudify.queue\<close>, whose task
  ids are photo ids.  \<open>window_focused\<close> says that \<^verbatim>\<open>activeWindow()\<close> is a focused window, and
  \<open>crop_write_error\<close> is the error with which writing the cropped file fails, if it does.
\<close>

record world =
  heap :: heap
  settings :: Settings
  photo_objs :: "Photo list"
  photos :: "addr list"
  nudify_queue :: "(string, addr) Queue"
  trace :: "effect list"
  window_focused :: bool
  crop_write_error :: "val option"

definition MAX_PHOTOS :: nat where
  "MAX_PHOTOS = 1000"

definition upd_photo :: "addr \<Rightarrow> (Photo \<Rightarrow> Photo) \<Rightarrow> world \<Rightarrow> world" where
  "upd_photo r f w =
     (case lookup (photo_objs w) r of
        None \<Rightarrow> w
      | Some p \<Rightarrow> w\<lparr>photo_objs := (photo_objs w)[r := f p]\<rparr>)"

definition upd_run :: "addr \<Rightarrow> (PhotoRun \<Rightarrow> PhotoRun) \<Rightarrow> Photo \<Rightarrow> Photo" where
  "upd_run a f p =
     (case lookup (run_objs p) a of
        None \<Rightarrow> p
      | Some run \<Rightarrow> p\<lparr>run_objs := (run_objs p)[a := f run]\<rparr>)"

definition effect :: "effect \<Rightarrow> world \<Rightarrow> world" where
  "effect e w = w\<lparr>trace := trace w @ [e]\<rparr>"

text \<open>
  \<^verbatim>\<open>Nudify.emitUpdate\<close> is a debounced function; the model records each call of it.
\<close>

definition emitUpdate :: "world \<Rightarrow> world" where
  "emitUpdate w = effect EmitUpdate w"

text \<open>The setter \<^verbatim>\<open>set status(value)\<close> of a photo.\<close>

definition set_status :: "addr \<Rightarrow> string \<Rightarrow> world \<Rightarrow> world" where
  "set_status r v w = emitUpdate (upd_photo r (\<lambda>p. p\<lparr>status := v\<rparr>) w)"

section \<open>The item controller: class Photo\<close>

text \<open>\<^verbatim>\<open>_validate()\<close>: the error it throws, if any.\<close>

definition validate :: "File \<Rightarrow> error option" where
  "validate f =
     (if \<not> exists f then
        Some (AppError (''The file '' @ [CHR 0x22] @ path f @ [CHR 0x22] @ '' does not exists.'')
                ''Upload failed.'' ''warn'')
      else if mimetype f \<noteq> ''image/jpeg'' \<and> mimetype f \<noteq> ''image/png''
              \<and> mimetype f \<noteq> ''image/gif'' then
        Some (AppError (''The file '' @ [CHR 0x22] @ path f @ [CHR 0x22]
                          @ '' is not a valid photo. Only jpeg, png or gif.'')
                ''Upload failed.'' ''warn'')
      else None)"

text \<open>
  \<^verbatim>\<open>_setupQueue()\<close>: the configuration of the local queue.  The handlers it registers are the
  functions \<open>task_started\<close>, \<open>task_finish\<close>, \<open>task_failed\<close> and \<open>drain\<close> below.
\<close>

definition setupQueue :: "Settings \<Rightarrow> (int, addr) Queue" where
  "setupQueue st =
     \<lparr>maxTimeout = (if processing_device st = Str ''GPU'' then 2 * 60 * 1000 else 10 * 60 * 1000),
      afterProcessDelay = 500,
      batchSize = 1,
      concurrent = 1,
      store = [],
      workers = []\<rparr>"

text \<open>
  \<^verbatim>\<open>new Photo(file)\<close>.  The constructor takes the identity from the file, clones
  \<^verbatim>\<open>settings.preferences\<close>, validates the file and sets the local queue up, in this order.  The
  clone is a new object in the heap, also when the validation throws afterwards.
\<close>

definition new_Photo :: "File \<Rightarrow> world \<Rightarrow> (error + Photo) \<times> world" where
  "new_Photo f w =
     (let (h, snapshot) = clone (heap w) (settings_preferences (settings w));
          w' = w\<lparr>heap := h\<rparr>
      in case validate f of
           Some e \<Rightarrow> (Inl e, w')
         | None \<Rightarrow>
             (Inr \<lparr>photo_id = md5 f, file = f, status = ''pending'',
                   queue = setupQueue (settings w), run_objs = [], runs = [],
                   preferences = snapshot, timer = new_Timer, cropper = None, awaiting = 0\<rparr>,
              w'))"

text \<open>\<^verbatim>\<open>getRunById(id)\<close> is \<^verbatim>\<open>this.runs[id - 1]\<close>; \<open>None\<close> is \<^verbatim>\<open>undefined\<close>.\<close>

definition getRunById :: "Photo \<Rightarrow> int \<Rightarrow> addr option" where
  "getRunById p i =
     (if 1 \<le> i \<and> i \<le> int (length (runs p)) then Some (runs p ! nat (i - 1)) else None)"

text \<open>\<^verbatim>\<open>reset()\<close>.\<close>

definition reset :: "addr \<Rightarrow> world \<Rightarrow> world" where
  "reset r w = upd_photo r (\<lambda>p. p\<lparr>timer := new_Timer, runs := []\<rparr>) (set_status r ''pending'' w)"

text \<open>\<^verbatim>\<open>_onStart()\<close>.\<close>

definition Photo_onStart :: "addr \<Rightarrow> world \<Rightarrow> world" where
  "Photo_onStart r w =
     effect (PhotoEmit r ''start'')
       (upd_photo r (\<lambda>p. p\<lparr>timer := timer_start (timer p)\<rparr>) (set_status r ''running'' w))"

text \<open>The camera emoji of the notification title, in UTF-8.\<close>

definition camera :: string where
  "camera = [CHR 0xF0, CHR 0x9F, CHR 0x93, CHR 0xB7]"

text \<open>\<^verbatim>\<open>_sendNotification()\<close>.\<close>

definition sendNotification :: "addr \<Rightarrow> world \<Rightarrow> world" where
  "sendNotification r w =
     (case lookup (photo_objs w) r of
        None \<Rightarrow> w
      | Some p \<Rightarrow>
          if window_focused w then w
          else if \<not> truthy (notifications_allRuns (settings w)) then w
          else effect (Notification (camera @ '' '' @ fullname (file p) @ '' has finished.'')
                         ''The photo has completed the transformation process.'') w)"

text \<open>
  \<^verbatim>\<open>this.events.emit('finish')\<close>: every caller of \<^verbatim>\<open>start()\<close> that waits for the event
  resumes.
\<close>

definition emit_finish :: "addr \<Rightarrow> world \<Rightarrow> world" where
  "emit_finish r w = effect (PhotoEmit r ''finish'') (upd_photo r (\<lambda>p. p\<lparr>awaiting := 0\<rparr>) w)"

text \<open>\<^verbatim>\<open>_onFinish(status = 'finished')\<close>.\<close>

definition Photo_onFinish :: "string \<Rightarrow> addr \<Rightarrow> world \<Rightarrow> world" where
  "Photo_onFinish v r w =
     sendNotification r
       (emit_finish r
          (upd_photo r (\<lambda>p. p\<lparr>timer := timer_stop (timer p)\<rparr>) (set_status r v w)))"

text \<open>
  \<^verbatim>\<open>this.queue.cancel(id)\<close> on the local queue: the handle that \<^verbatim>\<open>_run\<close> returned for a task
  in process calls \<^verbatim>\<open>run.cancel()\<close>, and the task is deleted from the store.  A task in process
  stays a worker until the queue reports its end.
\<close>

definition Photo_queue_cancel :: "addr \<Rightarrow> int \<Rightarrow> world \<Rightarrow> world" where
  "Photo_queue_cancel r i w =
     (case lookup (photo_objs w) r of
        None \<Rightarrow> w
      | Some p \<Rightarrow>
          (let w1 = (case map_of (workers (queue p)) i of
                       None \<Rightarrow> w
                     | Some a \<Rightarrow> effect (EngineCancel r i) (upd_photo r (upd_run a run_cancel) w))
           in upd_photo r (\<lambda>p. p\<lparr>queue := q_delete i (queue p)\<rparr>) w1))"

text \<open>\<^verbatim>\<open>cancelRun(run)\<close>, the run given by its address.\<close>

definition cancelRun :: "addr \<Rightarrow> addr \<Rightarrow> world \<Rightarrow> world" where
  "cancelRun r a w =
     (case lookup (photo_objs w) r of
        None \<Rightarrow> w
      | Some p \<Rightarrow>
          (case lookup (run_objs p) a of
             None \<Rightarrow> w
           | Some run \<Rightarrow> Photo_queue_cancel r (run_id run) w))"

text \<open>\<^verbatim>\<open>cancel(status = 'finished')\<close>.\<close>

definition cancel :: "string \<Rightarrow> addr \<Rightarrow> world \<Rightarrow> world" where
  "cancel v r w =
     (case lookup (photo_objs w) r of
        None \<Rightarrow> w
      | Some p \<Rightarrow> Photo_onFinish v r (fold (cancelRun r) (runs p) w))"

text \<open>\<^verbatim>\<open>rerun(run)\<close>, the run given by its address.\<close>

definition rerun :: "addr \<Rightarrow> addr \<Rightarrow> world \<Rightarrow> world" where
  "rerun r a w =
     (case lookup (photo_objs w) r of
        None \<Rightarrow> w
      | Some p \<Rightarrow>
          (case lookup (run_objs p) a of
             None \<Rightarrow> w
           | Some run \<Rightarrow>
               Photo_onStart r
                 (upd_photo r
                    (\<lambda>p. (upd_run a run_reset p)\<lparr>queue := q_push (run_id run) a (queue p)\<rparr>) w)))"

text \<open>
  \<^verbatim>\<open>crop()\<close>.  It throws while the crop tool has never been opened; otherwise it writes the
  cropped file, which is an external operation that may fail.
\<close>

definition crop :: "addr \<Rightarrow> world \<Rightarrow> (error + unit) \<times> world" where
  "crop r w =
     (case lookup (photo_objs w) r of
        None \<Rightarrow> (Inl NoObject, w)
      | Some p \<Rightarrow>
          (case cropper p of
             None \<Rightarrow>
               (Inl (AppError
                  ''This photo has the manual crop selected, you must open the Crop at least once to continue.''
                  (fullname (file p) @ '' it is not ready.'') ''warn''), w)
           | Some u \<Rightarrow>
               (case crop_write_error w of
                  Some e \<Rightarrow> (Inl (Rejected e), w)
                | None \<Rightarrow> (Inr (), effect (WriteCrop r) w))))"

section \<open>The registry and its queue: class Nudify\<close>

text \<open>\<^verbatim>\<open>Nudify.setup()\<close>: the global queue it creates.\<close>

definition Nudify_setup :: "(string, addr) Queue" where
  "Nudify_setup =
     \<lparr>maxTimeout = 60 * 60 * 1000,
      afterProcessDelay = 500,
      batchSize = 1,
      concurrent = 1,
      store = [],
      workers = []\<rparr>"

text \<open>
  The state in which the application boots: the registry \<^verbatim>\<open>photos = []\<close>, the global queue
  of \<^verbatim>\<open>Nudify.setup()\<close>, and nothing done yet.
\<close>

definition boot_world :: "heap \<Rightarrow> Settings \<Rightarrow> bool \<Rightarrow> val option \<Rightarrow> world" where
  "boot_world h st b c =
     \<lparr>heap = h, settings = st, photo_objs = [], photos = [], nudify_queue = Nudify_setup,
      trace = [], window_focused = b, crop_write_error = c\<rparr>"

text \<open>
  \<^verbatim>\<open>Nudify.addToQueue(photo)\<close>: the photo is pushed under its id, and the handler of
  \<^verbatim>\<open>task_queued\<close> sets its status.
\<close>

definition addToQueue :: "addr \<Rightarrow> world \<Rightarrow> world" where
  "addToQueue r w =
     (case lookup (photo_objs w) r of
        None \<Rightarrow> w
      | Some p \<Rightarrow>
          set_status r ''waiting'' (w\<lparr>nudify_queue := q_push (photo_id p) r (nudify_queue w)\<rparr>))"

text \<open>
  \<^verbatim>\<open>Nudify.removeFromQueue(photo)\<close> is \<^verbatim>\<open>this.queue.cancel(photo.id, cb)\<close>: the handle that
  \<^verbatim>\<open>Nudify._run\<close> returned for a task in process under this id calls \<^verbatim>\<open>cancel('pending')\<close>
  on the photo of that task, the task is deleted from the store, and the callback calls
  \<^verbatim>\<open>photo.cancel('pending')\<close>.
\<close>

definition removeFromQueue :: "addr \<Rightarrow> world \<Rightarrow> world" where
  "removeFromQueue r w =
     (case lookup (photo_objs w) r of
        None \<Rightarrow> w
      | Some p \<Rightarrow>
          (let w1 = (case map_of (workers (nudify_queue w)) (photo_id p) of
                       None \<Rightarrow> w
                     | Some t \<Rightarrow> cancel ''pending'' t w);
               w2 = w1\<lparr>nudify_queue := q_delete (photo_id p) (nudify_queue w1)\<rparr>
           in cancel ''pending'' r w2))"

text \<open>\<^verbatim>\<open>Nudify.getPhoto(id)\<close>, lodash \<^verbatim>\<open>find\<close> over the registry.\<close>

definition getPhoto :: "string \<Rightarrow> world \<Rightarrow> addr option" where
  "getPhoto i w =
     find (\<lambda>a. case lookup (photo_objs w) a of None \<Rightarrow> False | Some q \<Rightarrow> photo_id q = i)
       (photos w)"

text \<open>
  \<^verbatim>\<open>Nudify.remove(photo)\<close>: the photo is cancelled with the default status, and lodash
  \<^verbatim>\<open>remove\<close> takes every element with its id out of the registry.
\<close>

definition remove :: "addr \<Rightarrow> world \<Rightarrow> world" where
  "remove r w =
     (case lookup (photo_objs w) r of
        None \<Rightarrow> w
      | Some p \<Rightarrow>
          (let w1 = cancel ''finished'' r w
           in emitUpdate
                (w1\<lparr>photos :=
                      filter
                        (\<lambda>a. case lookup (photo_objs w1) a of
                               None \<Rightarrow> True
                             | Some q \<Rightarrow> photo_id q \<noteq> photo_id p)
                        (photos w1)\<rparr>)))"

text \<open>
  \<^verbatim>\<open>Nudify.add(file)\<close>.  The new photo becomes an object of the state when the registry takes
  it; a photo that the function drops is not kept.
\<close>

definition add :: "File \<Rightarrow> world \<Rightarrow> (error + unit) \<times> world" where
  "add f w =
     (case new_Photo f w of
        (Inl e, w1) \<Rightarrow> (Inl e, w1)
      | (Inr photo, w1) \<Rightarrow>
          (case getPhoto (photo_id photo) w1 of
             Some a \<Rightarrow> (Inr (), w1)
           | None \<Rightarrow>
               (let r = length (photo_objs w1);
                    w2 = w1\<lparr>photo_objs := photo_objs w1 @ [photo], photos := r # photos w1\<rparr>;
                    w3 = emitUpdate w2;
                    w4 = (if length (photos w3) > MAX_PHOTOS
                          then w3\<lparr>photos := butlast (photos w3)\<rparr> else w3);
                    uploadMode = app_uploadMode (settings w4)
                in if uploadMode = Str ''add-queue'' then (Inr (), addToQueue r w4)
                   else if uploadMode = Str ''go-preferences'' then
                     (Inr (), effect (RouterPush (''/nudify/'' @ photo_id photo)) w4)
                   else (Inr (), w4))))"

text \<open>
  The state of \<^verbatim>\<open>add\<close> after the eviction and before the upload mode is read, when the
  file is valid and its id is new: the first steps of \<open>add\<close> once more, for the proofs.
\<close>

definition added :: "File \<Rightarrow> world \<Rightarrow> world" where
  "added f w =
     (let w2 = w\<lparr>heap := fst (clone (heap w) (settings_preferences (settings w))),
                 photo_objs := photo_objs w @
                   [\<lparr>photo_id = md5 f, file = f, status = ''pending'',
                     queue = setupQueue (settings w), run_objs = [], runs = [],
                     preferences = snd (clone (heap w) (settings_preferences (settings w))),
                     timer = new_Timer, cropper = None, awaiting = 0\<rparr>],
                 photos := length (photo_objs w) # photos w\<rparr>;
          w3 = emitUpdate w2
      in if length (photos w3) > MAX_PHOTOS then w3\<lparr>photos := butlast (photos w3)\<rparr> else w3)"

text \<open>\<^verbatim>\<open>Nudify.runAll(status = 'pending')\<close>.\<close>

definition runAll :: "string \<Rightarrow> world \<Rightarrow> world" where
  "runAll v w =
     fold
       (\<lambda>a w'. case lookup (photo_objs w') a of
                 None \<Rightarrow> w'
               | Some p \<Rightarrow> if status p \<noteq> v then w' else addToQueue a w')
       (photos w) w"

section \<open>Starting a photo\<close>

text \<open>
  One round of the loop of \<^verbatim>\<open>start()\<close>: \<^verbatim>\<open>new PhotoRun(it, this)\<close>, \<^verbatim>\<open>this.runs.push(run)\<close>
  and \<^verbatim>\<open>this.queue.push(run)\<close>.
\<close>

definition push_run :: "addr \<Rightarrow> int \<Rightarrow> world \<Rightarrow> world" where
  "push_run r it w =
     upd_photo r
       (\<lambda>p. let a = length (run_objs p)
            in p\<lparr>run_objs := run_objs p @ [new_PhotoRun it],
                  runs := runs p @ [a],
                  queue := q_push it a (queue p)\<rparr>) w"

text \<open>\<^verbatim>\<open>for (let it = 1; it <= executions; it += 1)\<close>, from the current \<open>it\<close> on.\<close>

function start_loop :: "addr \<Rightarrow> int \<Rightarrow> rat \<Rightarrow> world \<Rightarrow> world" where
  "start_loop r it executions w =
     (if of_int it \<le> executions then start_loop r (it + 1) executions (push_run r it w) else w)"
  by pat_completeness auto
termination
  by (relation "measure (\<lambda>(r, it, executions, w). nat (\<lfloor>executions\<rfloor> + 1 - it))")
     (auto simp: le_floor_iff)

declare start_loop.simps [simp del]

text \<open>
  \<^verbatim>\<open>start()\<close> returns a promise: it is rejected (\<open>Inl\<close>), it is fulfilled at once
  (\<open>Returned\<close>), or the caller is suspended until the photo emits \<^verbatim>\<open>finish\<close> (\<open>Suspended\<close>).
\<close>

datatype outcome = Returned | Suspended

text \<open>
  \<^verbatim>\<open>start()\<close>.  The execution count is a number by the contract of the settings; the model does
  not cover the coercions of the language for another value.
\<close>

definition start :: "addr \<Rightarrow> world \<Rightarrow> (error + outcome) \<times> world" where
  "start r w =
     (case lookup (photo_objs w) r of
        None \<Rightarrow> (Inl NoObject, w)
      | Some p \<Rightarrow>
          (case get_path (heap w) (preferences p) [''body'', ''executions''] of
             Inl e \<Rightarrow> (Inl e, w)
           | Inr executions \<Rightarrow>
               (case get_path (heap w) (preferences p) [''advanced'', ''scaleMode''] of
                  Inl e \<Rightarrow> (Inl e, w)
                | Inr scaleMode \<Rightarrow>
                    if executions = Num 0 then (Inr Returned, w)
                    else
                      (case (if scaleMode = Str ''cropjs'' then crop r w else (Inr (), w)) of
                         (Inl err, w1) \<Rightarrow> (Inl err, removeFromQueue r w1)
                       | (Inr u, w1) \<Rightarrow>
                           (case executions of
                              Num n \<Rightarrow>
                                (Inr Suspended,
                                 upd_photo r (\<lambda>p. p\<lparr>awaiting := awaiting p + 1\<rparr>)
                                   (start_loop r 1 n (Photo_onStart r (reset r w1))))
                            | _ \<Rightarrow> (Inl NotModelled, w1))))))"

section \<open>The events of the local queue\<close>

text \<open>A worker takes the first stored task; a worker is released when its task has ended.\<close>

definition q_take :: "('i, 't) Queue \<Rightarrow> ('i, 't) Queue" where
  "q_take q =
     (case store q of
        [] \<Rightarrow> q
      | x # xs \<Rightarrow> q\<lparr>store := xs, workers := workers q @ [x]\<rparr>)"

definition q_release :: "'i \<Rightarrow> ('i, 't) Queue \<Rightarrow> ('i, 't) Queue" where
  "q_release i q = q\<lparr>workers := filter (\<lambda>(j, u). j \<noteq> i) (workers q)\<rparr>"

text \<open>
  The queue starts its next task: the handler of \<^verbatim>\<open>task_started\<close> calls \<^verbatim>\<open>run.onStart()\<close> on
  the task, and the task function \<^verbatim>\<open>_run\<close> calls \<^verbatim>\<open>run.start()\<close>.
\<close>

definition task_started :: "addr \<Rightarrow> world \<Rightarrow> error + world" where
  "task_started r w =
     (case lookup (photo_objs w) r of
        None \<Rightarrow> Inl NoObject
      | Some p \<Rightarrow>
          (case store (queue p) of
             [] \<Rightarrow> Inl NotEnabled
           | (i, a) # rest \<Rightarrow>
               if \<not> q_ready (queue p) then Inl NotEnabled
               else Inr (effect (EngineStart r i)
                           (upd_photo r
                              (\<lambda>p. upd_run a run_onStart (p\<lparr>queue := q_take (queue p)\<rparr>)) w))))"

text \<open>
  A task in process has succeeded: the handler of \<^verbatim>\<open>task_finish\<close> looks the run up by its id
  and calls \<^verbatim>\<open>run.onFinish()\<close>.
\<close>

definition task_finish :: "addr \<Rightarrow> int \<Rightarrow> world \<Rightarrow> error + world" where
  "task_finish r i w =
     (case lookup (photo_objs w) r of
        None \<Rightarrow> Inl NoObject
      | Some p \<Rightarrow>
          if i \<notin> fst ` set (workers (queue p)) then Inl NotEnabled
          else
            (case getRunById p i of
               None \<Rightarrow> Inl TypeError
             | Some a \<Rightarrow>
                 Inr (upd_photo r
                        (\<lambda>p. upd_run a run_onFinish (p\<lparr>queue := q_release i (queue p)\<rparr>)) w)))"

text \<open>
  A task in process has failed with an error: the handler of \<^verbatim>\<open>task_failed\<close> looks the run up
  by its id, calls \<^verbatim>\<open>run.onFail()\<close>, and hands the error to \<^verbatim>\<open>AppError.handle\<close> unless it
  is the string \<^verbatim>\<open>'cancelled'\<close>.
\<close>

definition task_failed :: "addr \<Rightarrow> int \<Rightarrow> val \<Rightarrow> world \<Rightarrow> error + world" where
  "task_failed r i err w =
     (case lookup (photo_objs w) r of
        None \<Rightarrow> Inl NoObject
      | Some p \<Rightarrow>
          if i \<notin> fst ` set (workers (queue p)) then Inl NotEnabled
          else
            (case getRunById p i of
               None \<Rightarrow> Inl TypeError
             | Some a \<Rightarrow>
                 (let w1 = upd_photo r
                             (\<lambda>p. upd_run a run_onFail (p\<lparr>queue := q_release i (queue p)\<rparr>)) w
                  in Inr (if err \<noteq> Str ''cancelled'' then effect (Handle err) w1 else w1))))"

text \<open>The queue has drained: the handler of \<^verbatim>\<open>drain\<close> calls \<^verbatim>\<open>_onFinish()\<close>.\<close>

definition drain :: "addr \<Rightarrow> world \<Rightarrow> error + world" where
  "drain r w =
     (case lookup (photo_objs w) r of
        None \<Rightarrow> Inl NoObject
      | Some p \<Rightarrow>
          if \<not> q_idle (queue p) then Inl NotEnabled
          else Inr (Photo_onFinish ''finished'' r w))"

datatype qevent = TaskStarted | TaskFinish int | TaskFailed int val | Drain

fun photo_step :: "addr \<Rightarrow> qevent \<Rightarrow> world \<Rightarrow> error + world" where
  "photo_step r TaskStarted w = task_started r w"
| "photo_step r (TaskFinish i) w = task_finish r i w"
| "photo_step r (TaskFailed i err) w = task_failed r i err w"
| "photo_step r Drain w = drain r w"

fun photo_steps :: "addr \<Rightarrow> qevent list \<Rightarrow> world \<Rightarrow> error + world" where
  "photo_steps r [] w = Inr w"
| "photo_steps r (ev # evs) w =
     (case photo_step r ev w of Inl e \<Rightarrow> Inl e | Inr w' \<Rightarrow> photo_steps r evs w')"

text \<open>
  The external engine decides how a run ends: \<open>out i\<close> is \<open>None\<close> when the run with index
  \<open>i\<close> succeeds and the error when it fails.  The events that the local queue raises for this
  run, when no other run is in process: it starts the task, and the task ends.
\<close>

definition unit_events :: "(int \<Rightarrow> val option) \<Rightarrow> int \<Rightarrow> qevent list" where
  "unit_events out i =
     [TaskStarted, (case out i of None \<Rightarrow> TaskFinish i | Some err \<Rightarrow> TaskFailed i err)]"

text \<open>
  What the run with index \<open>i\<close> does to the outside: the engine is started, and an error other
  than \<^verbatim>\<open>'cancelled'\<close> is handed to \<^verbatim>\<open>AppError.handle\<close>.
\<close>

definition unit_effects :: "addr \<Rightarrow> (int \<Rightarrow> val option) \<Rightarrow> int \<Rightarrow> effect list" where
  "unit_effects r out i =
     EngineStart r i #
       (case out i of
          None \<Rightarrow> []
        | Some err \<Rightarrow> if err \<noteq> Str ''cancelled'' then [Handle err] else [])"

text \<open>The status in which a run ends, and the hook that sets it.\<close>

definition outcome_status :: "val option \<Rightarrow> run_status" where
  "outcome_status result = (case result of None \<Rightarrow> Finished | Some err \<Rightarrow> Failed)"

definition unit_hook :: "val option \<Rightarrow> PhotoRun \<Rightarrow> PhotoRun" where
  "unit_hook result = (case result of None \<Rightarrow> run_onFinish | Some err \<Rightarrow> run_onFail)"

text \<open>The events that drain the local queue of a photo with \<open>n\<close> queued runs 1 to \<open>n\<close>.\<close>

definition drain_events :: "(int \<Rightarrow> val option) \<Rightarrow> nat \<Rightarrow> qevent list" where
  "drain_events out n = concat (map (unit_events out) [1..int n]) @ [Drain]"

text \<open>The statuses of the runs in \<^verbatim>\<open>this.runs\<close>, in order.\<close>

definition run_statuses :: "Photo \<Rightarrow> run_status option list" where
  "run_statuses p = map (\<lambda>a. map_option run_status (lookup (run_objs p) a)) (runs p)"

section \<open>The events of the global queue\<close>

text \<open>
  The global queue starts its next task with the task function \<^verbatim>\<open>Nudify._run(photo, cb)\<close>,
  which calls \<^verbatim>\<open>photo.start()\<close>.  When the promise is settled at once, the callback ends the
  task; otherwise the task stays in process.
\<close>

definition nudify_task_started :: "world \<Rightarrow> error + world" where
  "nudify_task_started w =
     (case store (nudify_queue w) of
        [] \<Rightarrow> Inl NotEnabled
      | (i, r) # rest \<Rightarrow>
          if \<not> q_ready (nudify_queue w) then Inl NotEnabled
          else
            (case start r (w\<lparr>nudify_queue := q_take (nudify_queue w)\<rparr>) of
               (Inl e, w1) \<Rightarrow>
                 if e = NoObject \<or> e = NotModelled then Inl e
                 else Inr (w1\<lparr>nudify_queue := q_release i (nudify_queue w1)\<rparr>)
             | (Inr Returned, w1) \<Rightarrow> Inr (w1\<lparr>nudify_queue := q_release i (nudify_queue w1)\<rparr>)
             | (Inr Suspended, w1) \<Rightarrow> Inr w1))"

text \<open>
  The photo of a task in process has emitted \<^verbatim>\<open>finish\<close>: the promise of \<^verbatim>\<open>start()\<close> is
  fulfilled and the callback ends the task.
\<close>

definition nudify_task_finish :: "string \<Rightarrow> world \<Rightarrow> error + world" where
  "nudify_task_finish i w =
     (case map_of (workers (nudify_queue w)) i of
        None \<Rightarrow> Inl NotEnabled
      | Some r \<Rightarrow>
          (case lookup (photo_objs w) r of
             None \<Rightarrow> Inl NoObject
           | Some p \<Rightarrow>
               if awaiting p \<noteq> 0 then Inl NotEnabled
               else Inr (w\<lparr>nudify_queue := q_release i (nudify_queue w)\<rparr>)))"

section \<open>The states the application can reach\<close>

text \<open>
  The application boots with an empty registry and the global queue of \<^verbatim>\<open>Nudify.setup()\<close>.
  Afterwards the user and the two queues call the operations above in any order, the settings
  may be written, the window may gain or lose the focus, and the crop tool may be opened.
\<close>

inductive reachable :: "world \<Rightarrow> bool" where
  boot: "reachable (boot_world h st b c)"
| write_settings:
    "reachable w \<Longrightarrow> set_prop (heap w) v k x = Inr h \<Longrightarrow> reachable (w\<lparr>heap := h\<rparr>)"
| environment:
    "reachable w \<Longrightarrow>
     reachable (w\<lparr>settings := st, window_focused := b, crop_write_error := c\<rparr>)"
| open_crop: "reachable w \<Longrightarrow> reachable (upd_photo r (\<lambda>p. p\<lparr>cropper := Some ()\<rparr>) w)"
| add: "reachable w \<Longrightarrow> reachable (snd (add f w))"
| remove: "reachable w \<Longrightarrow> reachable (remove r w)"
| addToQueue: "reachable w \<Longrightarrow> reachable (addToQueue r w)"
| removeFromQueue: "reachable w \<Longrightarrow> reachable (removeFromQueue r w)"
| runAll: "reachable w \<Longrightarrow> reachable (runAll v w)"
| start: "reachable w \<Longrightarrow> reachable (snd (start r w))"
| cancel: "reachable w \<Longrightarrow> reachable (cancel v r w)"
| rerun: "reachable w \<Longrightarrow> reachable (rerun r a w)"
| local_event: "reachable w \<Longrightarrow> photo_step r ev w = Inr w' \<Longrightarrow> reachable w'"
| global_started: "reachable w \<Longrightarrow> nudify_task_started w = Inr w' \<Longrightarrow> reachable w'"
| global_finish: "reachable w \<Longrightarrow> nudify_task_finish i w = Inr w' \<Longrightarrow> reachable w'"

section \<open>The snapshot of the preferences\<close>

text \<open>
  The scenario of the snapshot: a photo is created, then a property of the global object
  \<^verbatim>\<open>settings.preferences\<close> is written along a path of names, and the photo reads the same path
  of \<^verbatim>\<open>this.preferences\<close> before and after the write.
\<close>

definition preferences_before_after ::
  "File \<Rightarrow> world \<Rightarrow> string list \<Rightarrow> val \<Rightarrow> error + (val \<times> val)" where
  "preferences_before_after f w ks x =
     (case new_Photo f w of
        (Inl e, w1) \<Rightarrow> Inl e
      | (Inr photo, w1) \<Rightarrow>
          (case get_path (heap w1) (preferences photo) ks of
             Inl e \<Rightarrow> Inl e
           | Inr before \<Rightarrow>
               (case set_path (heap w1) (settings_preferences (settings w1)) ks x of
                  Inl e \<Rightarrow> Inl e
                | Inr h \<Rightarrow>
                    (case get_path h (preferences photo) ks of
                       Inl e \<Rightarrow> Inl e
                     | Inr after \<Rightarrow> Inr (before, after)))))"

section \<open>The settings service and its upgrade\<close>

text \<open>
  The settings document is read from a JSON file, so it is a tree: no two places of it share an
  object.
\<close>

datatype json =
    JUndefined | JNull | JBool bool | JNum rat | JStr string
  | JArr "json list" | JObj "(string \<times> json) list"

definition and_then :: "error + 'a \<Rightarrow> ('a \<Rightarrow> error + 'b) \<Rightarrow> error + 'b" where
  "and_then m f = (case m of Inl e \<Rightarrow> Inl e | Inr x \<Rightarrow> f x)"

text \<open>
  \<^verbatim>\<open>v.k\<close> for a name \<open>k\<close> that is neither an index nor a built-in property such as
  \<^verbatim>\<open>length\<close>.
\<close>

fun jget :: "json \<Rightarrow> string \<Rightarrow> error + json" where
  "jget JUndefined k = Inl TypeError"
| "jget JNull k = Inl TypeError"
| "jget (JObj ob) k = Inr (case map_of ob k of None \<Rightarrow> JUndefined | Some x \<Rightarrow> x)"
| "jget v k = Inr JUndefined"

text \<open>
  \<^verbatim>\<open>v.k = x\<close> in a module (strict mode), giving the new \<open>v\<close>.  A named property of an array
  is not modelled.
\<close>

fun jset :: "json \<Rightarrow> string \<Rightarrow> json \<Rightarrow> error + json" where
  "jset (JObj ob) k x = Inr (JObj (put k x ob))"
| "jset (JArr xs) k x = Inl NotModelled"
| "jset v k x = Inl TypeError"

text \<open>\<^verbatim>\<open>v.k.size = x\<close>, giving the new \<open>v\<close>.\<close>

definition jset_size :: "json \<Rightarrow> string \<Rightarrow> json \<Rightarrow> error + json" where
  "jset_size v k x =
     and_then (jget v k) (\<lambda>part. and_then (jset part ''size'' x) (\<lambda>part'. jset v k part'))"

fun jtruthy :: "json \<Rightarrow> bool" where
  "jtruthy JUndefined = False"
| "jtruthy JNull = False"
| "jtruthy (JBool b) = b"
| "jtruthy (JNum n) = (n \<noteq> 0)"
| "jtruthy (JStr s) = (s \<noteq> [])"
| "jtruthy v = True"

text \<open>
  \<^verbatim>\<open>a === b\<close>.  Two objects are equal when they are the same object, which two places of
  two documents never are.
\<close>

fun strict_eq :: "json \<Rightarrow> json \<Rightarrow> bool" where
  "strict_eq (JObj a) b = False"
| "strict_eq (JArr a) b = False"
| "strict_eq a b = (a = b)"

text \<open>
  The own properties that \<^verbatim>\<open>{...v}\<close> copies.  The spread of a string or of an array, which
  copies the indices, is not modelled.
\<close>

fun spread :: "json \<Rightarrow> error + (string \<times> json) list" where
  "spread (JObj ob) = Inr ob"
| "spread (JStr s) = Inl NotModelled"
| "spread (JArr xs) = Inl NotModelled"
| "spread v = Inr []"

text \<open>
  \<^verbatim>\<open>_loadInitital()\<close>: the first-run payload, which is also \<^verbatim>\<open>this._default\<close>.  The
  parameters are what the function reads from the system: whether there is a graphics card, the
  number of cores, the fresh user id, whether the application runs in development, and the four
  folders.
\<close>

definition loadInitital ::
  "bool \<Rightarrow> nat \<Rightarrow> string \<Rightarrow> bool \<Rightarrow> string \<Rightarrow> string \<Rightarrow> string \<Rightarrow> string \<Rightarrow> json" where
  "loadInitital hasGPU system_cores user development temp models masks cli =
     JObj
       [(''version'', JNum 4),
        (''welcome'', JBool True),
        (''user'', JStr user),
        (''app'', JObj
           [(''disableHardwareAcceleration'', JBool False),
            (''uploadMode'', JStr ''add-queue'')]),
        (''processing'', JObj
           [(''device'', JStr (if hasGPU then ''GPU'' else ''CPU'')),
            (''gpus'', JArr [JNum 0]),
            (''cores'', JNum (if (system_cores + 1) div 2 = 0 then 4
                              else of_nat ((system_cores + 1) div 2))),
            (''disablePersistentGan'', JBool False),
            (''usePython'', JBool development)]),
        (''preferences'', JObj
           [(''body'', JObj
               [(''executions'', JNum 1),
                (''randomize'', JBool False),
                (''progressive'', JObj [(''enabled'', JBool False), (''rate'', JNum (1 / 10))]),
                (''boobs'', JObj
                   [(''size'', JStr ''1''), (''randomize'', JBool True),
                    (''progressive'', JBool True)]),
                (''areola'', JObj
                   [(''size'', JStr ''1''), (''randomize'', JBool False),
                    (''progressive'', JBool True)]),
                (''nipple'', JObj
                   [(''size'', JStr ''1''), (''randomize'', JBool False),
                    (''progressive'', JBool True)]),
                (''vagina'', JObj
                   [(''size'', JStr ''0.75''), (''randomize'', JBool True),
                    (''progressive'', JBool True)]),
                (''pubicHair'', JObj
                   [(''size'', JStr ''1''), (''randomize'', JBool True),
                    (''progressive'', JBool True)])]),
            (''advanced'', JObj
               [(''scaleMode'', JStr ''auto-rescale''),
                (''useColorTransfer'', JBool False),
                (''useWaifu'', JBool False)])]),
        (''notifications'', JObj
           [(''run'', JBool False), (''allRuns'', JBool True), (''update'', JBool True)]),
        (''folders'', JObj
           [(''cropped'', JStr temp), (''models'', JStr models), (''masks'', JStr masks),
            (''cli'', JStr cli)]),
        (''telemetry'', JObj [(''enabled'', JBool True)])]"

text \<open>
  The step \<^verbatim>\<open>// Upgrade 1 -> 2\<close>, from the default, the payload and the new settings so far
  to the default and the new settings.  \<^verbatim>\<open>newSettings.preferences\<close> is the very object
  \<^verbatim>\<open>this._default.preferences\<close>, so the five assignments of a size change the default too.
\<close>

definition upgrade_1_2 :: "json \<Rightarrow> json \<Rightarrow> json \<Rightarrow> error + (json \<times> json)" where
  "upgrade_1_2 dflt payload newSettings =
     and_then (jset newSettings ''version'' (JNum 2)) (\<lambda>n1.
     and_then (jget dflt ''preferences'') (\<lambda>prefs.
     and_then (jset n1 ''preferences'' prefs) (\<lambda>n1'.
     and_then (jget dflt ''notifications'') (\<lambda>notifications.
     and_then (jset n1' ''notifications'' notifications) (\<lambda>n2.
     and_then (jget payload ''preferences'') (\<lambda>old.
     and_then (jget old ''boobsSize'') (\<lambda>boobsSize.
     and_then (jget old ''areolaSize'') (\<lambda>areolaSize.
     and_then (jget old ''nippleSize'') (\<lambda>nippleSize.
     and_then (jget old ''vaginaSize'') (\<lambda>vaginaSize.
     and_then (jget old ''pubicHairSize'') (\<lambda>pubicHairSize.
     and_then (jset_size prefs ''boobs'' boobsSize) (\<lambda>p1.
     and_then (jset_size p1 ''areola'' areolaSize) (\<lambda>p2.
     and_then (jset_size p2 ''nipple'' nippleSize) (\<lambda>p3.
     and_then (jset_size p3 ''vagina'' vaginaSize) (\<lambda>p4.
     and_then (jset_size p4 ''pubicHair'' pubicHairSize) (\<lambda>p5.
     and_then (jset dflt ''preferences'' p5) (\<lambda>dflt'.
     and_then (jset n2 ''preferences'' p5) (\<lambda>n3.
       Inr (dflt', n3)))))))))))))))))))"

text \<open>The step \<^verbatim>\<open>// Upgrade 2 -> 3\<close>, from the payload and the new settings so far.\<close>

definition upgrade_2_3 :: "json \<Rightarrow> json \<Rightarrow> error + json" where
  "upgrade_2_3 payload newSettings =
     and_then (jget payload ''processing'') (\<lambda>processing.
     and_then (jget payload ''preferences'') (\<lambda>preferences.
     and_then (jset newSettings ''version'' (JNum 3)) (\<lambda>n1.
     and_then (spread processing) (\<lambda>props.
     and_then (jset n1 ''processing''
                 (JObj (put ''disablePersistentGan'' (JBool False) (put ''cores'' (JNum 4) props))))
       (\<lambda>n2.
     and_then (jget preferences ''executions'') (\<lambda>executions.
     and_then (jget preferences ''randomizePreferences'') (\<lambda>randomizePreferences.
     and_then (jget preferences ''progressivePreferences'') (\<lambda>progressivePreferences.
     and_then (jget preferences ''boobs'') (\<lambda>boobs.
     and_then (jget preferences ''areola'') (\<lambda>areola.
     and_then (jget preferences ''nipple'') (\<lambda>nipple.
     and_then (jget preferences ''vagina'') (\<lambda>vagina.
     and_then (jget preferences ''pubicHair'') (\<lambda>pubicHair.
       jset n2 ''preferences''
         (JObj
            [(''body'', JObj
                [(''executions'', executions),
                 (''randomize'', randomizePreferences),
                 (''progressive'', JObj
                    [(''enabled'', progressivePreferences), (''rate'', JNum (1 / 10))]),
                 (''boobs'', boobs),
                 (''areola'', areola),
                 (''nipple'', nipple),
                 (''vagina'', vagina),
                 (''pubicHair'', pubicHair)]),
             (''advanced'', JObj
                [(''scaleMode'', JStr ''auto-rescale''),
                 (''useColorTransfer'', JBool False),
                 (''useWaifu'', JBool False)])]))))))))))))))"

text \<open>The step \<^verbatim>\<open>// Upgrade 3 -> 4\<close>.\<close>

definition upgrade_3_4 :: "json \<Rightarrow> error + json" where
  "upgrade_3_4 newSettings =
     and_then (jset newSettings ''version'' (JNum 4)) (\<lambda>n1.
       jset n1 ''app''
         (JObj [(''disableHardwareAcceleration'', JBool False),
                (''uploadMode'', JStr ''add-queue'')]))"

text \<open>
  \<^verbatim>\<open>_upgrade()\<close>, from \<^verbatim>\<open>this._default\<close> and \<^verbatim>\<open>this.payload\<close>.  The result is the
  default afterwards and the document that the function hands to \<^verbatim>\<open>this.set\<close>; \<open>None\<close> when
  it returns without calling \<^verbatim>\<open>this.set\<close>.  \<^verbatim>\<open>cloneDeep\<close> of a tree is the tree.
\<close>

definition upgrade :: "json \<Rightarrow> json \<Rightarrow> error + (json \<times> json option)" where
  "upgrade dflt payload =
     and_then (jget payload ''version'') (\<lambda>version.
     and_then (jget dflt ''version'') (\<lambda>newVersion.
       let currentVersion = (if jtruthy version then version else JNum 1) in
       if strict_eq newVersion currentVersion then Inr (dflt, None)
       else
         and_then
           (if strict_eq currentVersion (JNum 1) \<and> strict_eq newVersion (JNum 2)
            then upgrade_1_2 dflt payload payload else Inr (dflt, payload))
           (\<lambda>(dflt', n1).
         and_then
           (if strict_eq currentVersion (JNum 2) \<and> strict_eq newVersion (JNum 3)
            then upgrade_2_3 payload n1 else Inr n1)
           (\<lambda>n2.
         and_then
           (if strict_eq currentVersion (JNum 3) \<and> strict_eq newVersion (JNum 4)
            then upgrade_3_4 n2 else Inr n2)
           (\<lambda>n3. Inr (dflt', Some n3))))))"

section \<open>The debounced change notification\<close>

text \<open>
  \<^verbatim>\<open>Nudify.emitUpdate\<close> is \<^verbatim>\<open>debounce(f, 100, { leading: true })\<close>, where \<^verbatim>\<open>f\<close> emits
  \<^verbatim>\<open>nudify.update\<close> and \<^verbatim>\<open>debounce\<close> is the function of the package \<^verbatim>\<open>lodash\<close>, which is
  not among the sources.  It is modelled from the documentation of the library:
  \<^verbatim>\<open>debounce(func, wait, options)\<close> delays \<^verbatim>\<open>func\<close> until \<^verbatim>\<open>wait\<close> milliseconds have passed
  since the last call of the debounced function; \<^verbatim>\<open>options.leading\<close> (default false) and
  \<^verbatim>\<open>options.trailing\<close> (default true) say whether \<^verbatim>\<open>func\<close> is invoked on the leading and on
  the trailing edge of the wait; with both true, \<^verbatim>\<open>func\<close> is invoked on the trailing edge only
  if the debounced function was called again during the wait.

  Time is in milliseconds.  The calls of the debounced function are given by their times, in
  order; the result is the list of the times at which \<^verbatim>\<open>func\<close> is invoked.  \<open>armed\<close> is
  \<open>None\<close> when no wait is open, and the time of the last call together with the flag that a
  call is pending for the trailing edge otherwise.
\<close>

definition trailing_edge :: "nat \<Rightarrow> bool \<Rightarrow> (nat \<times> bool) option \<Rightarrow> nat list" where
  "trailing_edge wait trailing armed =
     (case armed of
        None \<Rightarrow> []
      | Some (lastCallTime, lastArgs) \<Rightarrow>
          if trailing \<and> lastArgs then [lastCallTime + wait] else [])"

fun debounce :: "nat \<Rightarrow> bool \<Rightarrow> bool \<Rightarrow> (nat \<times> bool) option \<Rightarrow> nat list \<Rightarrow> nat list" where
  "debounce wait leading trailing armed [] = trailing_edge wait trailing armed"
| "debounce wait leading trailing armed (now # later) =
     (case armed of
        None \<Rightarrow>
          (if leading then [now] else [])
            @ debounce wait leading trailing (Some (now, \<not> leading)) later
      | Some (lastCallTime, lastArgs) \<Rightarrow>
          if now < lastCallTime + wait
          then debounce wait leading trailing (Some (now, True)) later
          else trailing_edge wait trailing armed
                 @ (if leading then [now] else [])
                 @ debounce wait leading trailing (Some (now, \<not> leading)) later)"

text \<open>
  The times at which \<^verbatim>\<open>nudify.update\<close> is emitted when \<^verbatim>\<open>Nudify.emitUpdate()\<close> is called at
  the given times: the wait is 100, \<^verbatim>\<open>leading\<close> is true, and \<^verbatim>\<open>trailing\<close> is left at its
  default.
\<close>

definition emitUpdate_times :: "nat list \<Rightarrow> nat list" where
  "emitUpdate_times calls = debounce 100 True True None calls"

text \<open>A burst: every call comes less than \<open>wait\<close> milliseconds after the call before it.\<close>

fun burst :: "nat \<Rightarrow> nat list \<Rightarrow> bool" where
  "burst wait [] \<longleftrightarrow> True"
| "burst wait [t] \<longleftrightarrow> True"
| "burst wait (t # u # us) \<longleftrightarrow> t \<le> u \<and> u < t + wait \<and> burst wait (u # us)"

section \<open>Concrete inputs\<close>

text \<open>
  The preferences of the first-run settings, as objects of the heap: the object
  \<^verbatim>\<open>settings.preferences\<close> at address 0, its \<^verbatim>\<open>body\<close> at 1 and its \<^verbatim>\<open>advanced\<close> at 2.
\<close>

definition default_heap :: heap where
  "default_heap =
     [[(''body'', Ref 1), (''advanced'', Ref 2)],
      [(''executions'', Num 1), (''randomize'', Bool False), (''progressive'', Ref 3),
       (''boobs'', Ref 4), (''areola'', Ref 5), (''nipple'', Ref 6), (''vagina'', Ref 7),
       (''pubicHair'', Ref 8)],
      [(''scaleMode'', Str ''auto-rescale''), (''useColorTransfer'', Bool False),
       (''useWaifu'', Bool False)],
      [(''enabled'', Bool False), (''rate'', Num (1 / 10))],
      [(''size'', Str ''1''), (''randomize'', Bool True), (''progressive'', Bool True)],
      [(''size'', Str ''1''), (''randomize'', Bool False), (''progressive'', Bool True)],
      [(''size'', Str ''1''), (''randomize'', Bool False), (''progressive'', Bool True)],
      [(''size'', Str ''0.75''), (''randomize'', Bool True), (''progressive'', Bool True)],
      [(''size'', Str ''1''), (''randomize'', Bool True), (''progressive'', Bool True)]]"

definition default_settings :: Settings where
  "default_settings =
     \<lparr>app_uploadMode = Str ''add-queue'', processing_device = Str ''CPU'',
      notifications_allRuns = Bool True, settings_preferences = Ref 0\<rparr>"

text \<open>The application after boot, with the first-run settings and no focused window.\<close>

definition fresh_world :: world where
  "fresh_world = boot_world default_heap default_settings False None"

definition holiday_jpg :: File where
  "holiday_jpg =
     \<lparr>md5 = ''0cc175b9c0f1b6a831c399e269772661'', exists = True, mimetype = ''image/jpeg'',
      path = ''/home/user/holiday.jpg'', fullname = ''holiday.jpg''\<rparr>"

definition notes_txt :: File where
  "notes_txt =
     \<lparr>md5 = ''92eb5ffee6ae2fec3ad71c777531578f'', exists = True, mimetype = ''text/plain'',
      path = ''/home/user/notes.txt'', fullname = ''notes.txt''\<rparr>"

text \<open>A copy of the photo under a name that gives it another MIME type: the same content hash.\<close>

definition holiday_txt :: File where
  "holiday_txt =
     \<lparr>md5 = ''0cc175b9c0f1b6a831c399e269772661'', exists = True, mimetype = ''text/plain'',
      path = ''/home/user/holiday.txt'', fullname = ''holiday.txt''\<rparr>"

text \<open>The default of a machine without a graphics card and with four cores.\<close>

definition first_run_default :: json where
  "first_run_default =
     loadInitital False 4 ''6fa459ea-ee8a-3ca4-894e-db77e160355e'' False ''/tmp''
       ''/home/user/.config/dreamtime/models'' ''/home/user/.config/dreamtime/masks''
       ''/home/user/.config/dreamtime/dreampower''"

text \<open>A settings document of version 1, with the flat preferences that this version had.\<close>

definition settings_v1 :: json where
  "settings_v1 =
     JObj
       [(''version'', JNum 1),
        (''welcome'', JBool False),
        (''user'', JStr ''6fa459ea-ee8a-3ca4-894e-db77e160355e''),
        (''processing'', JObj [(''device'', JStr ''CPU''), (''gpus'', JArr [JNum 0])]),
        (''preferences'', JObj
           [(''executions'', JNum 1),
            (''boobsSize'', JStr ''1''),
            (''areolaSize'', JStr ''1''),
            (''nippleSize'', JStr ''1''),
            (''vaginaSize'', JStr ''0.75''),
            (''pubicHairSize'', JStr ''1'')])]"

text \<open>The state after the first-run user has added a photo: it waits on the global queue.\<close>

definition waiting_world :: world where
  "waiting_world = snd (add holiday_jpg fresh_world)"

definition waiting_photo :: Photo where
  "waiting_photo =
     \<lparr>photo_id = md5 holiday_jpg, file = holiday_jpg, status = ''waiting'',
      queue = setupQueue default_settings, run_objs = [], runs = [], preferences = Ref 9,
      timer = new_Timer, cropper = None, awaiting = 0\<rparr>"

text \<open>
  The first-run preferences with another execution count and another scale mode, and the state
  after the user has added a photo under them.
\<close>

definition heap_with :: "rat \<Rightarrow> string \<Rightarrow> heap" where
  "heap_with executions scaleMode =
     default_heap
       [1 := put ''executions'' (Num executions) (default_heap ! 1),
        2 := put ''scaleMode'' (Str scaleMode) (default_heap ! 2)]"

definition world_with :: "rat \<Rightarrow> string \<Rightarrow> world" where
  "world_with executions scaleMode =
     snd (add holiday_jpg (boot_world (heap_with executions scaleMode) default_settings False None))"

text \<open>An engine that fails the second run of a photo and succeeds otherwise.\<close>

definition second_fails :: "int \<Rightarrow> val option" where
  "second_fails i = (if i = 2 then Some (Str ''engine error'') else None)"

text \<open>The status of the photo at an address, and the status it has after events of its queue.\<close>

definition status_of :: "addr \<Rightarrow> world \<Rightarrow> string option" where
  "status_of r w = map_option status (lookup (photo_objs w) r)"

definition status_after :: "addr \<Rightarrow> qevent list \<Rightarrow> world \<Rightarrow> error + string option" where
  "status_after r evs w =
     (case photo_steps r evs w of Inl e \<Rightarrow> Inl e | Inr w' \<Rightarrow> Inr (status_of r w'))"

text \<open>
  A running photo: under two configured executions the user has added a photo, the global queue
  has started its task, and the local queue has started the first of the two runs.
\<close>

definition running_world :: world where
  "running_world =
     (case nudify_task_started (world_with 2 ''auto-rescale'') of
        Inl e \<Rightarrow> world_with 2 ''auto-rescale''
      | Inr w \<Rightarrow> (case task_started 0 w of Inl e \<Rightarrow> w | Inr w' \<Rightarrow> w'))"

text \<open>
  A photo with the manual crop, two executions configured and the crop tool opened, waiting on
  the global queue, in an environment where writing the cropped file fails.
\<close>

definition crop_world :: "val option \<Rightarrow> world" where
  "crop_world c =
     (upd_photo 0 (\<lambda>p. p\<lparr>cropper := Some ()\<rparr>) (world_with 2 ''cropjs''))
       \<lparr>settings := default_settings, window_focused := False, crop_write_error := c\<rparr>"

section \<open>Invariants\<close>

text \<open>
  A projection of a photo is quiet when neither the run objects nor the store of the local queue
  influence it.
\<close>

definition quiet :: "(Photo \<Rightarrow> 'a) \<Rightarrow> bool" where
  "quiet F \<longleftrightarrow>
     (\<forall>p ro s. F (p\<lparr>run_objs := ro\<rparr>) = F p \<and> F (p\<lparr>queue := (queue p)\<lparr>store := s\<rparr>\<rparr>) = F p)"

text \<open>
  What every operation keeps of a photo: its identity, the concurrency of its local queue, and
  that the tasks in process do not exceed this concurrency.
\<close>

definition keeps :: "Photo \<Rightarrow> Photo \<Rightarrow> bool" where
  "keeps p p' \<longleftrightarrow>
     photo_id p' = photo_id p \<and> concurrent (queue p') = concurrent (queue p) \<and>
     (length (workers (queue p)) \<le> concurrent (queue p)
        \<longrightarrow> length (workers (queue p')) \<le> concurrent (queue p'))"

text \<open>
  A state evolves into another one when the registry holds the same references and every photo
  keeps the above.
\<close>

definition evolves :: "world \<Rightarrow> world \<Rightarrow> bool" where
  "evolves w w' \<longleftrightarrow> photos w' = photos w \<and> list_all2 keeps (photo_objs w) (photo_objs w')"

text \<open>The local queue of a photo has concurrency one and at most one task in process.\<close>

definition photo_ok :: "Photo \<Rightarrow> bool" where
  "photo_ok p \<longleftrightarrow> concurrent (queue p) = 1 \<and> length (workers (queue p)) \<le> 1"

text \<open>The ids of the photos of the registry, in the order of the registry.\<close>

definition registry_ids :: "world \<Rightarrow> string option list" where
  "registry_ids w = map (\<lambda>a. map_option photo_id (lookup (photo_objs w) a)) (photos w)"

text \<open>
  The registry is within its capacity, refers to photos that exist and that differ in their ids,
  and every photo has a local queue as above.
\<close>

definition registry_ok :: "world \<Rightarrow> bool" where
  "registry_ok w \<longleftrightarrow>
     length (photos w) \<le> MAX_PHOTOS \<and> None \<notin> set (registry_ids w) \<and>
     distinct (registry_ids w) \<and> list_all photo_ok (photo_objs w)"

text \<open>
  For the proofs about one photo: the state in which the photo at an address is replaced and the
  trace is extended.
\<close>

definition set_photo :: "addr \<Rightarrow> Photo \<Rightarrow> effect list \<Rightarrow> world \<Rightarrow> world" where
  "set_photo r p t w = w\<lparr>photo_objs := (photo_objs w)[r := p], trace := trace w @ t\<rparr>"

text \<open>The photo after \<open>k\<close> rounds of the loop of \<^verbatim>\<open>start()\<close> from the index \<open>it\<close> on.\<close>

fun pushes :: "int \<Rightarrow> nat \<Rightarrow> Photo \<Rightarrow> Photo" where
  "pushes it 0 p = p"
| "pushes it (Suc k) p =
     pushes (it + 1) k
       (p\<lparr>run_objs := run_objs p @ [new_PhotoRun it],
          runs := runs p @ [length (run_objs p)],
          queue := q_push it (length (run_objs p)) (queue p)\<rparr>)"

text \<open>The sequence indices of the runs in \<^verbatim>\<open>this.runs\<close>, in order.\<close>

definition run_ids :: "Photo \<Rightarrow> int option list" where
  "run_ids p = map (\<lambda>a. map_option run_id (lookup (run_objs p) a)) (runs p)"

text \<open>
  The photo after a \<^verbatim>\<open>start()\<close> that creates \<open>n\<close> runs: reset, running with a started
  timer, the \<open>n\<close> runs pushed, and one more caller waiting for \<^verbatim>\<open>finish\<close>.
\<close>

definition started :: "nat \<Rightarrow> Photo \<Rightarrow> Photo" where
  "started n p =
     (pushes 1 n (p\<lparr>runs := [], status := ''running'', timer := timer_start new_Timer\<rparr>))
       \<lparr>awaiting := Suc (awaiting p)\<rparr>"

text \<open>
  The photo after the local queue has started and ended the first task of its store, and after
  it has done so for \<open>k\<close> tasks.
\<close>

definition unit_done :: "(int \<Rightarrow> val option) \<Rightarrow> Photo \<Rightarrow> Photo" where
  "unit_done out p =
     (case store (queue p) of
        [] \<Rightarrow> p
      | (i, a) # rest \<Rightarrow>
          upd_run a (unit_hook (out i))
            ((upd_run a run_onStart (p\<lparr>queue := q_take (queue p)\<rparr>))
               \<lparr>queue := q_release i (q_take (queue p))\<rparr>))"

fun process :: "(int \<Rightarrow> val option) \<Rightarrow> nat \<Rightarrow> Photo \<Rightarrow> Photo" where
  "process out 0 p = p"
| "process out (Suc k) p = process out k (unit_done out p)"

section \<open>What the operations leave unchanged\<close>

lemma lookup_simps [simp]:
  "lookup [] i = None"
  "lookup (xs @ [x]) (length xs) = Some x"
  "i < length xs \<Longrightarrow> lookup (xs @ ys) i = lookup xs i"
  by (simp_all add: lookup_def nth_append)

lemma lookup_Some_iff: "lookup xs i = Some x \<longleftrightarrow> i < length xs \<and> xs ! i = x"
  by (auto simp: lookup_def)

lemma lookup_None_iff: "lookup xs i = None \<longleftrightarrow> length xs \<le> i"
  by (auto simp: lookup_def)

lemma lookup_update:
  "lookup (xs[i := x]) j = (if j = i \<and> i < length xs then Some x else lookup xs j)"
  by (auto simp: lookup_def)

lemma upd_photo_frame [simp]:
  "heap (upd_photo r f w) = heap w"
  "settings (upd_photo r f w) = settings w"
  "photos (upd_photo r f w) = photos w"
  "nudify_queue (upd_photo r f w) = nudify_queue w"
  "trace (upd_photo r f w) = trace w"
  "window_focused (upd_photo r f w) = window_focused w"
  "crop_write_error (upd_photo r f w) = crop_write_error w"
  "length (photo_objs (upd_photo r f w)) = length (photo_objs w)"
  by (simp_all add: upd_photo_def lookup_def)

lemma lookup_upd_photo [simp]:
  "lookup (photo_objs (upd_photo r f w)) a =
     (if a = r then map_option f (lookup (photo_objs w) r) else lookup (photo_objs w) a)"
  by (auto simp: upd_photo_def lookup_def)

lemma effect_frame [simp]:
  "heap (effect e w) = heap w"
  "settings (effect e w) = settings w"
  "photos (effect e w) = photos w"
  "photo_objs (effect e w) = photo_objs w"
  "nudify_queue (effect e w) = nudify_queue w"
  "trace (effect e w) = trace w @ [e]"
  "window_focused (effect e w) = window_focused w"
  "crop_write_error (effect e w) = crop_write_error w"
  by (simp_all add: effect_def)

lemma set_status_frame [simp]:
  "heap (set_status r v w) = heap w"
  "settings (set_status r v w) = settings w"
  "photos (set_status r v w) = photos w"
  "nudify_queue (set_status r v w) = nudify_queue w"
  "trace (set_status r v w) = trace w @ [EmitUpdate]"
  "window_focused (set_status r v w) = window_focused w"
  "crop_write_error (set_status r v w) = crop_write_error w"
  "length (photo_objs (set_status r v w)) = length (photo_objs w)"
  "lookup (photo_objs (set_status r v w)) a =
     (if a = r then map_option (\<lambda>p. p\<lparr>status := v\<rparr>) (lookup (photo_objs w) r)
      else lookup (photo_objs w) a)"
  by (simp_all add: set_status_def emitUpdate_def)


lemma sendNotification_frame [simp]:
  "heap (sendNotification r w) = heap w"
  "settings (sendNotification r w) = settings w"
  "photos (sendNotification r w) = photos w"
  "photo_objs (sendNotification r w) = photo_objs w"
  "nudify_queue (sendNotification r w) = nudify_queue w"
  "window_focused (sendNotification r w) = window_focused w"
  "crop_write_error (sendNotification r w) = crop_write_error w"
  by (simp_all add: sendNotification_def split: option.splits)

lemma emit_finish_frame [simp]:
  "heap (emit_finish r w) = heap w"
  "settings (emit_finish r w) = settings w"
  "photos (emit_finish r w) = photos w"
  "nudify_queue (emit_finish r w) = nudify_queue w"
  "trace (emit_finish r w) = trace w @ [PhotoEmit r ''finish'']"
  "window_focused (emit_finish r w) = window_focused w"
  "crop_write_error (emit_finish r w) = crop_write_error w"
  "length (photo_objs (emit_finish r w)) = length (photo_objs w)"
  "lookup (photo_objs (emit_finish r w)) a =
     (if a = r then map_option (\<lambda>p. p\<lparr>awaiting := 0\<rparr>) (lookup (photo_objs w) r)
      else lookup (photo_objs w) a)"
  by (simp_all add: emit_finish_def)

lemma Photo_onFinish_frame [simp]:
  "heap (Photo_onFinish v r w) = heap w"
  "settings (Photo_onFinish v r w) = settings w"
  "photos (Photo_onFinish v r w) = photos w"
  "nudify_queue (Photo_onFinish v r w) = nudify_queue w"
  "window_focused (Photo_onFinish v r w) = window_focused w"
  "crop_write_error (Photo_onFinish v r w) = crop_write_error w"
  "length (photo_objs (Photo_onFinish v r w)) = length (photo_objs w)"
  by (simp_all add: Photo_onFinish_def)

lemma lookup_Photo_onFinish:
  "lookup (photo_objs (Photo_onFinish v r w)) a =
     (if a = r
      then map_option (\<lambda>p. p\<lparr>status := v, timer := timer_stop (timer p), awaiting := 0\<rparr>)
             (lookup (photo_objs w) r)
      else lookup (photo_objs w) a)"
  by (simp add: Photo_onFinish_def option.map_comp comp_def)

lemma Photo_queue_cancel_frame [simp]:
  "heap (Photo_queue_cancel r i w) = heap w"
  "settings (Photo_queue_cancel r i w) = settings w"
  "photos (Photo_queue_cancel r i w) = photos w"
  "nudify_queue (Photo_queue_cancel r i w) = nudify_queue w"
  "window_focused (Photo_queue_cancel r i w) = window_focused w"
  "crop_write_error (Photo_queue_cancel r i w) = crop_write_error w"
  "length (photo_objs (Photo_queue_cancel r i w)) = length (photo_objs w)"
  by (simp_all add: Photo_queue_cancel_def Let_def split: option.splits)

lemma cancelRun_frame [simp]:
  "heap (cancelRun r a w) = heap w"
  "settings (cancelRun r a w) = settings w"
  "photos (cancelRun r a w) = photos w"
  "nudify_queue (cancelRun r a w) = nudify_queue w"
  "window_focused (cancelRun r a w) = window_focused w"
  "crop_write_error (cancelRun r a w) = crop_write_error w"
  "length (photo_objs (cancelRun r a w)) = length (photo_objs w)"
  by (simp_all add: cancelRun_def split: option.splits)

lemma fold_cancelRun_frame [simp]:
  "heap (fold (cancelRun r) as w) = heap w"
  "settings (fold (cancelRun r) as w) = settings w"
  "photos (fold (cancelRun r) as w) = photos w"
  "nudify_queue (fold (cancelRun r) as w) = nudify_queue w"
  "window_focused (fold (cancelRun r) as w) = window_focused w"
  "crop_write_error (fold (cancelRun r) as w) = crop_write_error w"
  "length (photo_objs (fold (cancelRun r) as w)) = length (photo_objs w)"
  by (induction as arbitrary: w; simp)+

lemma cancel_frame [simp]:
  "heap (cancel v r w) = heap w"
  "settings (cancel v r w) = settings w"
  "photos (cancel v r w) = photos w"
  "nudify_queue (cancel v r w) = nudify_queue w"
  "window_focused (cancel v r w) = window_focused w"
  "crop_write_error (cancel v r w) = crop_write_error w"
  "length (photo_objs (cancel v r w)) = length (photo_objs w)"
  by (simp_all add: cancel_def split: option.splits)



lemma quiet_fields [simp]:
  "quiet photo_id" "quiet file" "quiet status" "quiet runs" "quiet preferences"
  "quiet timer" "quiet cropper" "quiet awaiting"
  "quiet (\<lambda>p. workers (queue p))" "quiet (\<lambda>p. concurrent (queue p))"
  by (simp_all add: quiet_def)

lemma quiet_upd_run: "quiet F \<Longrightarrow> F (upd_run a f p) = F p"
  by (simp add: quiet_def upd_run_def split: option.splits)

lemma quiet_q_delete: "quiet F \<Longrightarrow> F (p\<lparr>queue := q_delete i (queue p)\<rparr>) = F p"
  by (simp add: quiet_def q_delete_def)

lemma quiet_q_push: "quiet F \<Longrightarrow> F (p\<lparr>queue := q_push i t (queue p)\<rparr>) = F p"
  by (simp add: quiet_def q_push_def)

lemma upd_run_fields [simp]:
  "queue (upd_run a f p) = queue p"
  "photo_id (upd_run a f p) = photo_id p"
  "file (upd_run a f p) = file p"
  "status (upd_run a f p) = status p"
  "runs (upd_run a f p) = runs p"
  "preferences (upd_run a f p) = preferences p"
  "timer (upd_run a f p) = timer p"
  "cropper (upd_run a f p) = cropper p"
  "awaiting (upd_run a f p) = awaiting p"
  "length (run_objs (upd_run a f p)) = length (run_objs p)"
  by (simp_all add: upd_run_def split: option.splits)

lemma quiet_Photo_queue_cancel:
  "quiet F \<Longrightarrow>
   map_option F (lookup (photo_objs (Photo_queue_cancel r i w)) a)
     = map_option F (lookup (photo_objs w) a)"
  by (cases "lookup (photo_objs w) r")
     (auto simp: Photo_queue_cancel_def Let_def option.map_comp comp_def quiet_upd_run
        quiet_q_delete split: option.splits)

lemma quiet_cancelRun:
  "quiet F \<Longrightarrow>
   map_option F (lookup (photo_objs (cancelRun r b w)) a) = map_option F (lookup (photo_objs w) a)"
  by (simp add: cancelRun_def quiet_Photo_queue_cancel split: option.splits)

lemma quiet_fold_cancelRun:
  "quiet F \<Longrightarrow>
   map_option F (lookup (photo_objs (fold (cancelRun r) bs w)) a)
     = map_option F (lookup (photo_objs w) a)"
  by (induction bs arbitrary: w) (simp_all add: quiet_cancelRun)

lemma trace_Photo_queue_cancel:
  "\<exists>t. trace (Photo_queue_cancel r i w) = trace w @ t \<and> set t \<subseteq> range (EngineCancel r)"
  by (simp add: Photo_queue_cancel_def Let_def split: option.splits)

lemma trace_cancelRun:
  "\<exists>t. trace (cancelRun r b w) = trace w @ t \<and> set t \<subseteq> range (EngineCancel r)"
  using trace_Photo_queue_cancel by (simp add: cancelRun_def split: option.splits)

lemma trace_fold_cancelRun:
  "\<exists>t. trace (fold (cancelRun r) bs w) = trace w @ t \<and> set t \<subseteq> range (EngineCancel r)"
proof (induction bs arbitrary: w)
  case Nil
  then show ?case by simp
next
  case (Cons b bs)
  obtain t1 where t1: "trace (cancelRun r b w) = trace w @ t1" "set t1 \<subseteq> range (EngineCancel r)"
    using trace_cancelRun by blast
  obtain t2 where t2: "trace (fold (cancelRun r) bs (cancelRun r b w)) = trace (cancelRun r b w) @ t2"
    "set t2 \<subseteq> range (EngineCancel r)"
    using Cons.IH by blast
  have "trace (fold (cancelRun r) (b # bs) w) = trace w @ (t1 @ t2)"
    using t1 t2 by simp
  moreover have "set (t1 @ t2) \<subseteq> range (EngineCancel r)"
    using t1 t2 by simp
  ultimately show ?case by blast
qed

lemma map_option_eq_SomeD:
  "map_option F x = map_option F (Some p) \<Longrightarrow> \<exists>p'. x = Some p' \<and> F p' = F p"
  by (cases x) auto

lemma cancel_photo:
  assumes "lookup (photo_objs w) r = Some p"
  shows "\<exists>p'. lookup (photo_objs (cancel v r w)) r = Some p' \<and> status p' = v
           \<and> \<not> ticking (timer p') \<and> awaiting p' = 0 \<and> photo_id p' = photo_id p
           \<and> file p' = file p"
proof -
  have "map_option (\<lambda>p. (photo_id p, file p)) (lookup (photo_objs (fold (cancelRun r) (runs p) w)) r)
      = map_option (\<lambda>p. (photo_id p, file p)) (Some p)"
    using quiet_fold_cancelRun [of "\<lambda>p. (photo_id p, file p)" r "runs p" w r] assms
    by (simp add: quiet_def)
  then obtain p1 where p1: "lookup (photo_objs (fold (cancelRun r) (runs p) w)) r = Some p1"
    "photo_id p1 = photo_id p" "file p1 = file p"
    by (auto dest: map_option_eq_SomeD)
  show ?thesis
    using assms p1 by (simp add: cancel_def lookup_Photo_onFinish timer_stop_def)
qed




lemma keeps_refl [simp]: "keeps p p"
  by (simp add: keeps_def)

lemma keeps_trans: "keeps p q \<Longrightarrow> keeps q s \<Longrightarrow> keeps p s"
  by (auto simp: keeps_def)

lemma keeps_simple [simp]:
  "keeps p (p\<lparr>status := v\<rparr>)"
  "keeps p (p\<lparr>timer := t\<rparr>)"
  "keeps p (p\<lparr>awaiting := n\<rparr>)"
  "keeps p (p\<lparr>cropper := c\<rparr>)"
  "keeps p (p\<lparr>timer := t, runs := rs\<rparr>)"
  "keeps p (upd_run a f p)"
  "keeps p (p\<lparr>queue := q_delete i (queue p)\<rparr>)"
  "keeps p (p\<lparr>queue := q_push j b (queue p)\<rparr>)"
  "keeps p (p\<lparr>queue := q_release j (queue p)\<rparr>)"
  by (simp_all add: keeps_def q_delete_def q_push_def q_release_def le_trans [OF length_filter_le])

lemma keeps_upd_run: "keeps p q \<Longrightarrow> keeps p (upd_run a f q)"
  by (auto simp: keeps_def)

lemma keeps_q_take: "q_ready (queue p) \<Longrightarrow> keeps p (p\<lparr>queue := q_take (queue p)\<rparr>)"
  by (auto simp: keeps_def q_take_def q_ready_def split: list.splits)

lemma evolves_refl [simp]: "evolves w w"
  by (simp add: evolves_def list_all2_refl)

lemma evolves_trans: "evolves w w1 \<Longrightarrow> evolves w1 w2 \<Longrightarrow> evolves w w2"
  unfolding evolves_def
  by (auto intro: list_all2_trans [of keeps keeps keeps, rotated] keeps_trans)

lemma evolves_upd_photo:
  assumes "evolves w w1" and "\<And>p. lookup (photo_objs w1) r = Some p \<Longrightarrow> keeps p (f p)"
  shows "evolves w (upd_photo r f w1)"
proof (cases "lookup (photo_objs w1) r")
  case None
  then show ?thesis using assms(1) by (simp add: upd_photo_def)
next
  case (Some p)
  then have r: "r < length (photo_objs w1)" "photo_objs w1 ! r = p"
    by (auto simp: lookup_def split: if_splits)
  have "list_all2 keeps (photo_objs w) ((photo_objs w1)[r := f p])"
    using assms(1) assms(2) [OF Some] r
    by (auto simp: evolves_def list_all2_conv_all_nth nth_list_update intro: keeps_trans)
  then show ?thesis
    using assms(1) Some by (simp add: upd_photo_def evolves_def)
qed

lemma evolves_fields:
  "evolves w w1 \<Longrightarrow> evolves w (effect e w1)"
  "evolves w w1 \<Longrightarrow> evolves w (emitUpdate w1)"
  "evolves w w1 \<Longrightarrow> evolves w (w1\<lparr>nudify_queue := q\<rparr>)"
  "evolves w w1 \<Longrightarrow> evolves w (w1\<lparr>heap := h\<rparr>)"
  "evolves w w1 \<Longrightarrow> evolves w (w1\<lparr>settings := st, window_focused := b, crop_write_error := c\<rparr>)"
  by (simp_all add: evolves_def effect_def emitUpdate_def)

lemma evolves_set_status: "evolves w w1 \<Longrightarrow> evolves w (set_status r v w1)"
  by (simp add: set_status_def evolves_fields evolves_upd_photo)

lemma evolves_reset: "evolves w w1 \<Longrightarrow> evolves w (reset r w1)"
  by (simp add: reset_def evolves_set_status evolves_upd_photo)

lemma evolves_Photo_onStart: "evolves w w1 \<Longrightarrow> evolves w (Photo_onStart r w1)"
  by (simp add: Photo_onStart_def evolves_set_status evolves_upd_photo evolves_fields)

lemma evolves_sendNotification: "evolves w w1 \<Longrightarrow> evolves w (sendNotification r w1)"
  by (simp add: sendNotification_def evolves_fields split: option.splits)

lemma evolves_Photo_onFinish: "evolves w w1 \<Longrightarrow> evolves w (Photo_onFinish v r w1)"
  by (simp add: Photo_onFinish_def emit_finish_def evolves_sendNotification evolves_set_status
        evolves_upd_photo evolves_fields)

lemma evolves_Photo_queue_cancel: "evolves w w1 \<Longrightarrow> evolves w (Photo_queue_cancel r i w1)"
  by (simp add: Photo_queue_cancel_def Let_def evolves_upd_photo evolves_fields
        split: option.splits)

lemma evolves_cancelRun: "evolves w w1 \<Longrightarrow> evolves w (cancelRun r a w1)"
  by (simp add: cancelRun_def evolves_Photo_queue_cancel split: option.splits)

lemma evolves_fold_cancelRun: "evolves w w1 \<Longrightarrow> evolves w (fold (cancelRun r) as w1)"
  by (induction as arbitrary: w1) (simp_all add: evolves_cancelRun)

lemma evolves_cancel: "evolves w w1 \<Longrightarrow> evolves w (cancel v r w1)"
  by (simp add: cancel_def evolves_Photo_onFinish evolves_fold_cancelRun split: option.splits)

lemma evolves_crop: "evolves w w1 \<Longrightarrow> evolves w (snd (crop r w1))"
  by (simp add: crop_def evolves_fields split: option.splits)

lemma evolves_addToQueue: "evolves w w1 \<Longrightarrow> evolves w (addToQueue r w1)"
  by (simp add: addToQueue_def evolves_set_status evolves_fields split: option.splits)

lemma evolves_removeFromQueue: "evolves w w1 \<Longrightarrow> evolves w (removeFromQueue r w1)"
  by (simp add: removeFromQueue_def Let_def evolves_cancel evolves_fields split: option.splits)

lemma evolves_runAll_aux:
  "evolves w w1 \<Longrightarrow>
   evolves w
     (fold (\<lambda>a w'. case lookup (photo_objs w') a of
                    None \<Rightarrow> w'
                  | Some p \<Rightarrow> if status p \<noteq> v then w' else addToQueue a w') as w1)"
  by (induction as arbitrary: w1) (simp_all add: evolves_addToQueue split: option.splits)

lemma evolves_runAll: "evolves w (runAll v w)"
  by (simp add: runAll_def evolves_runAll_aux)

lemma evolves_push_run: "evolves w w1 \<Longrightarrow> evolves w (push_run r it w1)"
  by (auto simp: push_run_def Let_def keeps_def q_push_def intro!: evolves_upd_photo)

lemma evolves_start_loop: "evolves w w1 \<Longrightarrow> evolves w (start_loop r it n w1)"
proof (induction r it n w1 rule: start_loop.induct)
  case (1 r it executions w1)
  then show ?case
    by (subst start_loop.simps) (simp add: evolves_push_run)
qed


lemma evolves_rerun: "evolves w w1 \<Longrightarrow> evolves w (rerun r a w1)"
  by (auto simp: rerun_def keeps_def q_push_def split: option.splits
        intro!: evolves_Photo_onStart evolves_upd_photo)


lemma evolves_start:
  assumes "evolves w w1" shows "evolves w (snd (start r w1))"
proof -
  obtain x y where C: "crop r w1 = (x, y)"
    by (cases "crop r w1") blast
  have y: "evolves w y"
    using evolves_crop [OF assms, of r] C by simp
  have a: "evolves w (removeFromQueue r y)"
    using y by (rule evolves_removeFromQueue)
  have b: "evolves w (upd_photo r (\<lambda>p. p\<lparr>awaiting := Suc (awaiting p)\<rparr>)
                       (start_loop r 1 n (Photo_onStart r (reset r z))))"
    if "evolves w z" for z n
    using that
    by (intro evolves_upd_photo evolves_start_loop evolves_Photo_onStart evolves_reset) simp_all
  show ?thesis
    using assms y a b [OF y] b [OF assms]
    by (simp add: start_def C split: option.splits sum.splits val.splits)
qed


lemma evolves_task_started: "task_started r w = Inr w' \<Longrightarrow> evolves w w'"
  by (auto simp: task_started_def split: option.splits list.splits if_splits
        intro!: evolves_fields evolves_upd_photo keeps_upd_run keeps_q_take)

lemma evolves_task_finish: "task_finish r i w = Inr w' \<Longrightarrow> evolves w w'"
  by (auto simp: task_finish_def split: option.splits if_splits
        intro!: evolves_upd_photo
        intro!: keeps_upd_run)

lemma evolves_task_failed: "task_failed r i err w = Inr w' \<Longrightarrow> evolves w w'"
  by (auto simp: task_failed_def Let_def split: option.splits if_splits
        intro!: evolves_fields evolves_upd_photo
        intro!: keeps_upd_run)

lemma evolves_drain: "drain r w = Inr w' \<Longrightarrow> evolves w w'"
  by (auto simp: drain_def split: option.splits if_splits intro!: evolves_Photo_onFinish)

lemma evolves_photo_step: "photo_step r ev w = Inr w' \<Longrightarrow> evolves w w'"
  by (cases ev)
     (simp_all add: evolves_task_started evolves_task_finish evolves_task_failed evolves_drain)

lemma evolves_nudify_task_started: "nudify_task_started w = Inr w' \<Longrightarrow> evolves w w'"
proof -
  assume a: "nudify_task_started w = Inr w'"
  have s: "evolves w (snd (start r (w\<lparr>nudify_queue := q\<rparr>)))" for r q
    by (intro evolves_start evolves_fields) simp
  have "evolves w (y\<lparr>nudify_queue := q'\<rparr>)" "evolves w y"
    if "start r (w\<lparr>nudify_queue := q\<rparr>) = (x, y)" for r q x y q'
    using s [of r q] that by (simp_all add: evolves_fields)
  then show ?thesis
    using a
    by (auto simp: nudify_task_started_def
          split: list.splits if_splits prod.splits sum.splits outcome.splits)
qed

lemma evolves_nudify_task_finish: "nudify_task_finish i w = Inr w' \<Longrightarrow> evolves w w'"
  by (auto simp: nudify_task_finish_def evolves_fields split: option.splits if_splits)




lemma evolves_lookup_id:
  "evolves w w' \<Longrightarrow>
   map_option photo_id (lookup (photo_objs w') a) = map_option photo_id (lookup (photo_objs w) a)"
  by (auto simp: evolves_def lookup_def list_all2_conv_all_nth keeps_def)

lemma evolves_registry_ids: "evolves w w' \<Longrightarrow> registry_ids w' = registry_ids w"
  by (simp add: registry_ids_def evolves_lookup_id) (simp add: evolves_def)

lemma evolves_photo_ok:
  "evolves w w' \<Longrightarrow> list_all photo_ok (photo_objs w) \<Longrightarrow> list_all photo_ok (photo_objs w')"
  by (auto simp: evolves_def list_all2_conv_all_nth list_all_length keeps_def photo_ok_def)

lemma evolves_registry_ok: "evolves w w' \<Longrightarrow> registry_ok w \<Longrightarrow> registry_ok w'"
  by (simp add: registry_ok_def evolves_registry_ids evolves_photo_ok) (simp add: evolves_def)

section \<open>Adding a file to the registry\<close>

lemma validate_None_iff:
  "validate f = None \<longleftrightarrow>
     exists f \<and> mimetype f \<in> {''image/jpeg'', ''image/png'', ''image/gif''}"
  by (simp add: validate_def)

lemma validate_Some:
  assumes "\<not> (exists f \<and> mimetype f \<in> {''image/jpeg'', ''image/png'', ''image/gif''})"
  shows "\<exists>msg. validate f = Some (AppError msg ''Upload failed.'' ''warn'')"
  using assms unfolding validate_def by (cases "exists f") auto

lemma add_invalid:
  "validate f = Some e \<Longrightarrow>
   add f w = (Inl e, w\<lparr>heap := fst (clone (heap w) (settings_preferences (settings w)))\<rparr>)"
  by (simp add: add_def new_Photo_def Let_def split: prod.splits)

lemma registry_ids_frame [simp]:
  "registry_ids (w\<lparr>heap := h\<rparr>) = registry_ids w"
  "registry_ids (w\<lparr>settings := st, window_focused := b, crop_write_error := c\<rparr>) = registry_ids w"
  by (simp_all add: registry_ids_def)

lemma registry_ok_frame [simp]:
  "registry_ok (w\<lparr>heap := h\<rparr>) = registry_ok w"
  "registry_ok (w\<lparr>settings := st, window_focused := b, crop_write_error := c\<rparr>) = registry_ok w"
  by (simp_all add: registry_ok_def)

lemma emitUpdate_frame [simp]:
  "heap (emitUpdate w) = heap w"
  "settings (emitUpdate w) = settings w"
  "photos (emitUpdate w) = photos w"
  "photo_objs (emitUpdate w) = photo_objs w"
  "nudify_queue (emitUpdate w) = nudify_queue w"
  "trace (emitUpdate w) = trace w @ [EmitUpdate]"
  "window_focused (emitUpdate w) = window_focused w"
  "crop_write_error (emitUpdate w) = crop_write_error w"
  by (simp_all add: emitUpdate_def)

lemma getPhoto_frame [simp]: "getPhoto i (w\<lparr>heap := h\<rparr>) = getPhoto i w"
  by (simp add: getPhoto_def)

lemma getPhoto_None_iff: "getPhoto i w = None \<longleftrightarrow> Some i \<notin> set (registry_ids w)"
proof -
  have eq: "(\<lambda>a. case lookup (photo_objs w) a of None \<Rightarrow> False | Some q \<Rightarrow> photo_id q = i)
          = (\<lambda>a. map_option photo_id (lookup (photo_objs w) a) = Some i)"
    by (rule ext) (simp split: option.splits)
  have "getPhoto i w = None
          \<longleftrightarrow> \<not> (\<exists>a\<in>set (photos w). map_option photo_id (lookup (photo_objs w) a) = Some i)"
    unfolding getPhoto_def find_None_iff eq by blast
  moreover have "Some i \<in> set (registry_ids w)
          \<longleftrightarrow> (\<exists>a\<in>set (photos w). map_option photo_id (lookup (photo_objs w) a) = Some i)"
    unfolding registry_ids_def by (simp add: image_iff eq_commute [of "Some i"])
  ultimately show ?thesis by simp
qed

lemma add_existing:
  "validate f = None \<Longrightarrow> getPhoto (md5 f) w = Some a \<Longrightarrow>
   add f w = (Inr (), w\<lparr>heap := fst (clone (heap w) (settings_preferences (settings w)))\<rparr>)"
  by (simp add: add_def new_Photo_def Let_def split: prod.splits)


lemma add_new:
  assumes "validate f = None" and "getPhoto (md5 f) w = None"
  shows "add f w =
           (Inr (),
            if app_uploadMode (settings w) = Str ''add-queue''
            then addToQueue (length (photo_objs w)) (added f w)
            else if app_uploadMode (settings w) = Str ''go-preferences''
            then effect (RouterPush (''/nudify/'' @ md5 f)) (added f w)
            else added f w)"
proof -
  obtain h v where c: "clone (heap w) (settings_preferences (settings w)) = (h, v)"
    by (cases "clone (heap w) (settings_preferences (settings w))") blast
  show ?thesis
    using assms
    by (simp add: add_def new_Photo_def c Let_def added_def)
qed

lemma add_new_evolves:
  assumes "validate f = None" and "getPhoto (md5 f) w = None"
  shows "evolves (added f w) (snd (add f w))"
  by (simp add: add_new [OF assms] evolves_addToQueue evolves_fields)


lemma added_fields [simp]:
  "photos (added f w) =
     length (photo_objs w) # (if MAX_PHOTOS \<le> length (photos w) then butlast (photos w) else photos w)"
  "photo_objs (added f w) = photo_objs w @
     [\<lparr>photo_id = md5 f, file = f, status = ''pending'',
       queue = setupQueue (settings w), run_objs = [], runs = [],
       preferences = snd (clone (heap w) (settings_preferences (settings w))),
       timer = new_Timer, cropper = None, awaiting = 0\<rparr>]"
  "trace (added f w) = trace w @ [EmitUpdate]"
  "nudify_queue (added f w) = nudify_queue w"
  "settings (added f w) = settings w"
  by (auto simp: added_def Let_def MAX_PHOTOS_def)


lemma registry_ids_valid:
  "None \<notin> set (registry_ids w) \<Longrightarrow> a \<in> set (photos w) \<Longrightarrow> a < length (photo_objs w)"
  by (force simp: registry_ids_def lookup_def image_iff split: if_splits)

lemma registry_ids_added:
  assumes "None \<notin> set (registry_ids w)"
  shows "registry_ids (added f w) =
           Some (md5 f) # (if MAX_PHOTOS \<le> length (photos w) then butlast (registry_ids w)
                           else registry_ids w)"
proof -
  have v: "lookup (photo_objs w @ [x]) a = lookup (photo_objs w) a" if "a \<in> set (photos w)" for a x
    using registry_ids_valid [OF assms that] by simp
  show ?thesis
    by (simp add: registry_ids_def map_butlast [symmetric] v in_set_butlastD)
qed

lemma photo_ok_new [simp]:
  "photo_ok \<lparr>photo_id = i, file = f, status = v, queue = setupQueue st, run_objs = ro,
             runs = rs, preferences = pr, timer = t, cropper = c, awaiting = n\<rparr>"
  by (simp add: photo_ok_def setupQueue_def)

lemma registry_ok_added:
  assumes "registry_ok w" and "Some (md5 f) \<notin> set (registry_ids w)"
  shows "registry_ok (added f w)"
proof -
  have n: "None \<notin> set (registry_ids w)" and d: "distinct (registry_ids w)"
    and l: "length (photos w) \<le> MAX_PHOTOS" and k: "list_all photo_ok (photo_objs w)"
    using assms(1) by (simp_all add: registry_ok_def)
  have "length (photos (added f w)) \<le> MAX_PHOTOS"
    using l by (auto simp: MAX_PHOTOS_def)
  moreover have "None \<notin> set (registry_ids (added f w))"
    using n by (auto simp: registry_ids_added dest: in_set_butlastD)
  moreover have "distinct (registry_ids (added f w))"
    using n d assms(2) by (auto simp: registry_ids_added distinct_butlast dest: in_set_butlastD)
  moreover have "list_all photo_ok (photo_objs (added f w))"
    using k by simp
  ultimately show ?thesis
    by (simp add: registry_ok_def)
qed

lemma registry_ok_add:
  assumes "registry_ok w"
  shows "registry_ok (snd (add f w))"
proof (cases "validate f")
  case (Some e)
  then show ?thesis using assms by (simp add: add_invalid)
next
  case None
  show ?thesis
  proof (cases "getPhoto (md5 f) w")
    case (Some a)
    then show ?thesis using assms None by (simp add: add_existing)
  next
    case g: None
    then have "registry_ok (added f w)"
      using assms by (simp add: registry_ok_added getPhoto_None_iff)
    then show ?thesis
      using add_new_evolves [OF None g] by (rule evolves_registry_ok [rotated])
  qed
qed

lemma registry_ok_filter:
  assumes "registry_ok w"
  shows "registry_ok (w\<lparr>photos := filter P (photos w)\<rparr>)"
proof -
  have "length (photos w) \<le> MAX_PHOTOS"
    using assms by (simp add: registry_ok_def)
  with length_filter_le have "length (filter P (photos w)) \<le> MAX_PHOTOS"
    by (rule le_trans)
  then show ?thesis
    using assms by (auto simp: registry_ok_def registry_ids_def distinct_map_filter)
qed

lemma registry_ok_remove:
  assumes "registry_ok w"
  shows "registry_ok (remove r w)"
proof (cases "lookup (photo_objs w) r")
  case None
  then show ?thesis using assms by (simp add: remove_def)
next
  case (Some p)
  have "registry_ok (cancel ''finished'' r w)"
    using evolves_cancel [OF evolves_refl] assms by (rule evolves_registry_ok)
  then have "registry_ok ((cancel ''finished'' r w)\<lparr>photos := filter P (photos (cancel ''finished'' r w))\<rparr>)"
    for P
    by (rule registry_ok_filter)
  then show ?thesis
    using Some evolves_registry_ok [OF evolves_fields(2) [OF evolves_refl]]
    by (simp add: remove_def Let_def)
qed

lemma registry_ok_boot [simp]: "registry_ok (boot_world h st b c)"
  by (simp add: registry_ok_def boot_world_def registry_ids_def)

lemma reachable_registry_ok: "reachable w \<Longrightarrow> registry_ok w"
proof (induction rule: reachable.induct)
  case (boot h st b c)
  show ?case by simp
next
  case (write_settings w v k x h)
  then show ?case by simp
next
  case (environment w st b c)
  then show ?case by simp
next
  case (open_crop w r)
  then show ?case
    using evolves_upd_photo [OF evolves_refl, of w r "\<lambda>p. p\<lparr>cropper := Some ()\<rparr>"]
    by (auto intro: evolves_registry_ok)
next
  case (add w f)
  then show ?case by (simp add: registry_ok_add)
next
  case (remove w r)
  then show ?case by (simp add: registry_ok_remove)
next
  case (addToQueue w r)
  show ?case
    using addToQueue.IH evolves_addToQueue [OF evolves_refl] by (rule evolves_registry_ok [rotated])
next
  case (removeFromQueue w r)
  show ?case
    using removeFromQueue.IH evolves_removeFromQueue [OF evolves_refl] by (rule evolves_registry_ok [rotated])
next
  case (runAll w v)
  show ?case
    using runAll.IH evolves_runAll by (rule evolves_registry_ok [rotated])
next
  case (start w r)
  show ?case
    using start.IH evolves_start [OF evolves_refl] by (rule evolves_registry_ok [rotated])
next
  case (cancel w v r)
  show ?case
    using cancel.IH evolves_cancel [OF evolves_refl] by (rule evolves_registry_ok [rotated])
next
  case (rerun w r a)
  show ?case
    using rerun.IH evolves_rerun [OF evolves_refl] by (rule evolves_registry_ok [rotated])
next
  case (local_event w r ev w')
  then show ?case using evolves_photo_step by (blast intro: evolves_registry_ok)
next
  case (global_started w w')
  then show ?case using evolves_nudify_task_started by (blast intro: evolves_registry_ok)
next
  case (global_finish w i w')
  then show ?case using evolves_nudify_task_finish by (blast intro: evolves_registry_ok)
qed

text \<open>
  Claim C10.  \<^verbatim>\<open>add(file)\<close> is atomic when the validation fails.  A file that does not exist,
  or whose MIME type is none of \<^verbatim>\<open>image/jpeg\<close>, \<^verbatim>\<open>image/png\<close> and \<^verbatim>\<open>image/gif\<close>, makes
  \<^verbatim>\<open>add\<close> throw the validation error of the constructor, and then the registry and the photo
  objects are as before, nothing is put on the global queue, and no update or other effect is
  emitted.
\<close>

theorem add_validation_failure_atomic:
  assumes "\<not> (exists f \<and> mimetype f \<in> {''image/jpeg'', ''image/png'', ''image/gif''})"
  shows "(\<exists>msg. fst (add f w) = Inl (AppError msg ''Upload failed.'' ''warn''))
       \<and> photos (snd (add f w)) = photos w
       \<and> photo_objs (snd (add f w)) = photo_objs w
       \<and> nudify_queue (snd (add f w)) = nudify_queue w
       \<and> trace (snd (add f w)) = trace w"
proof -
  obtain msg where "validate f = Some (AppError msg ''Upload failed.'' ''warn'')"
    using validate_Some [OF assms] ..
  then show ?thesis
    by (simp add: add_invalid)
qed

theorem add_validation_failure_atomic_witness:
  "\<not> (exists notes_txt
        \<and> mimetype notes_txt \<in> {''image/jpeg'', ''image/png'', ''image/gif''})
   \<and> (\<exists>msg. fst (add notes_txt fresh_world) = Inl (AppError msg ''Upload failed.'' ''warn''))
   \<and> photos (snd (add notes_txt fresh_world)) = []
   \<and> store (nudify_queue (snd (add notes_txt fresh_world))) = []
   \<and> trace (snd (add notes_txt fresh_world)) = []"
proof -
  have h: "\<not> (exists notes_txt
               \<and> mimetype notes_txt \<in> {''image/jpeg'', ''image/png'', ''image/gif''})"
    by (simp add: notes_txt_def)
  show ?thesis
    using h add_validation_failure_atomic [OF h, of fresh_world]
    by (simp add: fresh_world_def boot_world_def Nudify_setup_def)
qed

lemma distinct_count_list: "distinct xs \<Longrightarrow> count_list xs x = (if x \<in> set xs then 1 else 0)"
  by (induction xs) auto

lemma add_valid_present:
  assumes "registry_ok w" and "validate f = None"
  shows "Some (md5 f) \<in> set (registry_ids (snd (add f w)))"
proof (cases "getPhoto (md5 f) w")
  case None
  have "None \<notin> set (registry_ids w)"
    using assms(1) by (simp add: registry_ok_def)
  then have "Some (md5 f) \<in> set (registry_ids (added f w))"
    by (simp add: registry_ids_added)
  then show ?thesis
    using evolves_registry_ids [OF add_new_evolves [OF assms(2) None]] by simp
next
  case (Some a)
  then have "Some (md5 f) \<in> set (registry_ids w)"
    using getPhoto_None_iff [of "md5 f" w] by simp
  then show ?thesis
    using Some assms(2) by (simp add: add_existing)
qed

lemma add_noop:
  assumes "getPhoto (md5 f) w \<noteq> None"
  shows "photos (snd (add f w)) = photos w" "photo_objs (snd (add f w)) = photo_objs w"
    "nudify_queue (snd (add f w)) = nudify_queue w" "trace (snd (add f w)) = trace w"
    "validate f = None \<Longrightarrow> fst (add f w) = Inr ()"
  using assms by (cases "validate f"; auto simp: add_existing add_invalid)+

text \<open>
  Claim C6.  The registry never holds more than 1000 photos: in every state the application can
  reach, and after every \<^verbatim>\<open>add\<close> from such a state, the length of \<^verbatim>\<open>Nudify.photos\<close> is at
  most \<^verbatim>\<open>MAX_PHOTOS\<close>, which is 1000.  An \<^verbatim>\<open>add\<close> that inserts (a valid file with a new id)
  puts the new photo at the front, and when the registry was full it drops the last, the oldest,
  entry.
\<close>

theorem registry_capacity:
  assumes "reachable w"
  shows "MAX_PHOTOS = 1000 \<and> length (photos w) \<le> MAX_PHOTOS
       \<and> length (photos (snd (add f w))) \<le> MAX_PHOTOS
       \<and> (validate f = None \<and> getPhoto (md5 f) w = None \<longrightarrow>
            photos (snd (add f w)) =
              length (photo_objs w)
                # (if length (photos w) = MAX_PHOTOS then butlast (photos w) else photos w)
          \<and> map_option photo_id (lookup (photo_objs (snd (add f w))) (length (photo_objs w)))
              = Some (md5 f))"
proof -
  have a: "length (photos w) \<le> MAX_PHOTOS"
    using reachable_registry_ok [OF assms] by (simp add: registry_ok_def)
  have b: "length (photos (snd (add f w))) \<le> MAX_PHOTOS"
    using reachable_registry_ok [OF reachable.add [OF assms]] by (simp add: registry_ok_def)
  have c: "photos (snd (add f w)) =
             length (photo_objs w)
               # (if length (photos w) = MAX_PHOTOS then butlast (photos w) else photos w)"
    and d: "map_option photo_id (lookup (photo_objs (snd (add f w))) (length (photo_objs w)))
              = Some (md5 f)"
    if "validate f = None" "getPhoto (md5 f) w = None"
    using add_new_evolves [OF that] evolves_lookup_id [OF add_new_evolves [OF that]] a
    by (auto simp: evolves_def)
  show ?thesis
    using a b c d by (simp add: MAX_PHOTOS_def)
qed

lemma waiting_world_eq:
  "waiting_world =
     \<lparr>heap = default_heap @ [[(''body'', Ref 1), (''advanced'', Ref 2)]],
      settings = default_settings,
      photo_objs = [waiting_photo],
      photos = [0],
      nudify_queue = Nudify_setup\<lparr>store := [(md5 holiday_jpg, 0)]\<rparr>,
      trace = [EmitUpdate, EmitUpdate],
      window_focused = False,
      crop_write_error = None\<rparr>"
  by (simp add: waiting_world_def waiting_photo_def add_def new_Photo_def clone_def lookup_def
        default_heap_def default_settings_def fresh_world_def boot_world_def getPhoto_def
        addToQueue_def set_status_def upd_photo_def emitUpdate_def effect_def q_push_def
        Nudify_setup_def validate_def holiday_jpg_def MAX_PHOTOS_def Let_def)

text \<open>
  Claim C7 as it is stated fails on the code.  The constructor validates the file before
  \<^verbatim>\<open>add\<close> looks the id up: for a file that has the content hash of a photo of the registry
  and is not valid, \<^verbatim>\<open>add\<close> throws instead of returning, and a file that is not valid is
  not in the registry after it has been submitted twice.
\<close>

theorem add_existing_id_throws:
  "md5 holiday_txt = md5 holiday_jpg
   \<and> getPhoto (md5 holiday_txt) waiting_world = Some 0
   \<and> fst (add holiday_txt waiting_world) =
         Inl (AppError
           (''The file '' @ [CHR 0x22] @ ''/home/user/holiday.txt'' @ [CHR 0x22]
              @ '' is not a valid photo. Only jpeg, png or gif.'')
           ''Upload failed.'' ''warn'')
   \<and> count_list (registry_ids (snd (add holiday_txt (snd (add holiday_txt fresh_world)))))
         (Some (md5 holiday_txt)) = 0"
proof -
  have v: "validate holiday_txt =
             Some (AppError
               (''The file '' @ [CHR 0x22] @ ''/home/user/holiday.txt'' @ [CHR 0x22]
                  @ '' is not a valid photo. Only jpeg, png or gif.'')
               ''Upload failed.'' ''warn'')"
    by (simp add: validate_def holiday_txt_def)
  have g: "getPhoto (md5 holiday_txt) waiting_world = Some 0"
    by (simp add: getPhoto_def waiting_world_eq lookup_def waiting_photo_def holiday_txt_def
          holiday_jpg_def)
  have z: "registry_ids fresh_world = []"
    by (simp add: registry_ids_def fresh_world_def boot_world_def)
  show ?thesis
    using g by (simp add: add_invalid [OF v] z) (simp add: holiday_txt_def holiday_jpg_def)
qed

text \<open>
  Claim C7, amended.  \<^verbatim>\<open>add\<close> is idempotent in the identity of the item.  When the content
  hash of the file is the id of a photo of the registry, \<^verbatim>\<open>add\<close> changes neither the registry
  nor the photo objects nor the global queue and emits nothing, and it returns normally when the
  file is valid.  Submitting the same valid file twice leaves exactly one photo with its id in the
  registry.
\<close>

theorem add_same_file_twice:
  assumes "reachable w"
  shows "(getPhoto (md5 f) w \<noteq> None \<longrightarrow>
            photos (snd (add f w)) = photos w \<and> photo_objs (snd (add f w)) = photo_objs w
          \<and> nudify_queue (snd (add f w)) = nudify_queue w \<and> trace (snd (add f w)) = trace w
          \<and> (validate f = None \<longrightarrow> fst (add f w) = Inr ()))
       \<and> (validate f = None \<longrightarrow>
            count_list (registry_ids (snd (add f (snd (add f w))))) (Some (md5 f)) = 1)"
proof -
  have "count_list (registry_ids (snd (add f (snd (add f w))))) (Some (md5 f)) = 1"
    if v: "validate f = None"
  proof -
    have ok: "registry_ok (snd (add f w))"
      using reachable_registry_ok [OF reachable.add [OF assms]] .
    have p: "Some (md5 f) \<in> set (registry_ids (snd (add f w)))"
      using add_valid_present [OF reachable_registry_ok [OF assms] v] .
    then have "getPhoto (md5 f) (snd (add f w)) \<noteq> None"
      by (simp add: getPhoto_None_iff)
    then have "registry_ids (snd (add f (snd (add f w)))) = registry_ids (snd (add f w))"
      by (simp add: registry_ids_def add_noop)
    then show ?thesis
      using ok p by (simp add: registry_ok_def distinct_count_list)
  qed
  then show ?thesis
    by (simp add: add_noop)
qed

theorem registry_capacity_witness:
  "reachable fresh_world \<and> validate holiday_jpg = None
   \<and> getPhoto (md5 holiday_jpg) fresh_world = None
   \<and> length (photos fresh_world) \<le> 1000
   \<and> photos (snd (add holiday_jpg fresh_world)) = [0]
   \<and> map_option photo_id (lookup (photo_objs (snd (add holiday_jpg fresh_world))) 0)
       = Some (md5 holiday_jpg)"
proof -
  have r: "reachable fresh_world"
    unfolding fresh_world_def by (rule reachable.boot)
  have v: "validate holiday_jpg = None"
    by (simp add: validate_def holiday_jpg_def)
  have g: "getPhoto (md5 holiday_jpg) fresh_world = None"
    by (simp add: getPhoto_def fresh_world_def boot_world_def)
  have e: "photos fresh_world = []" "photo_objs fresh_world = []"
    by (simp_all add: fresh_world_def boot_world_def)
  show ?thesis
    using r v g registry_capacity [OF r, of holiday_jpg]
    by (simp add: e MAX_PHOTOS_def)
qed

theorem add_same_file_twice_witness:
  "reachable fresh_world \<and> validate holiday_jpg = None
   \<and> getPhoto (md5 holiday_jpg) (snd (add holiday_jpg fresh_world)) \<noteq> None
   \<and> photos (snd (add holiday_jpg (snd (add holiday_jpg fresh_world))))
       = photos (snd (add holiday_jpg fresh_world))
   \<and> trace (snd (add holiday_jpg (snd (add holiday_jpg fresh_world))))
       = trace (snd (add holiday_jpg fresh_world))
   \<and> count_list (registry_ids (snd (add holiday_jpg (snd (add holiday_jpg fresh_world)))))
        (Some (md5 holiday_jpg)) = 1"
proof -
  have r: "reachable fresh_world"
    unfolding fresh_world_def by (rule reachable.boot)
  have v: "validate holiday_jpg = None"
    by (simp add: validate_def holiday_jpg_def)
  have g: "getPhoto (md5 holiday_jpg) (snd (add holiday_jpg fresh_world)) \<noteq> None"
    using add_valid_present [OF reachable_registry_ok [OF r] v]
    by (simp add: getPhoto_None_iff)
  show ?thesis
    using r v g add_same_file_twice [OF r, of holiday_jpg]
      add_same_file_twice [OF reachable.add [OF r], of holiday_jpg holiday_jpg]
    by simp
qed

section \<open>Cancelling a photo\<close>

lemma trace_Photo_onFinish:
  assumes "lookup (photo_objs w) r = Some p"
  shows "trace (Photo_onFinish v r w) =
           trace w @ [EmitUpdate, PhotoEmit r ''finish''] @
             (if \<not> window_focused w \<and> truthy (notifications_allRuns (settings w))
              then [Notification (camera @ '' '' @ fullname (file p) @ '' has finished.'')
                      ''The photo has completed the transformation process.'']
              else [])"
  using assms by (simp add: Photo_onFinish_def sendNotification_def)

lemma cancel_keeps_file:
  "map_option file (lookup (photo_objs (cancel v t w)) a) = map_option file (lookup (photo_objs w) a)"
proof (cases "lookup (photo_objs w) t")
  case None
  then show ?thesis by (simp add: cancel_def)
next
  case (Some p)
  show ?thesis
    using quiet_fold_cancelRun [of "file" t "runs p" w t]
      quiet_fold_cancelRun [of "file" t "runs p" w a]
    by (simp add: cancel_def Some lookup_Photo_onFinish option.map_comp comp_def)
qed

lemma trace_cancel:
  assumes "lookup (photo_objs w) r = Some p"
  shows "\<exists>t. set t \<subseteq> range (EngineCancel r)
           \<and> trace (cancel v r w) =
               trace w @ t @ [EmitUpdate, PhotoEmit r ''finish''] @
                 (if \<not> window_focused w \<and> truthy (notifications_allRuns (settings w))
                  then [Notification (camera @ '' '' @ fullname (file p) @ '' has finished.'')
                          ''The photo has completed the transformation process.'']
                  else [])"
proof -
  let ?w1 = "fold (cancelRun r) (runs p) w"
  obtain t where t: "trace ?w1 = trace w @ t" "set t \<subseteq> range (EngineCancel r)"
    using trace_fold_cancelRun by blast
  have "map_option file (lookup (photo_objs ?w1) r) = map_option file (Some p)"
    using quiet_fold_cancelRun [of "file" r "runs p" w r] assms by simp
  then obtain p1 where p1: "lookup (photo_objs ?w1) r = Some p1" "file p1 = file p"
    by (auto dest: map_option_eq_SomeD)
  have "trace (cancel v r w) =
          trace w @ t @ [EmitUpdate, PhotoEmit r ''finish''] @
            (if \<not> window_focused w \<and> truthy (notifications_allRuns (settings w))
             then [Notification (camera @ '' '' @ fullname (file p) @ '' has finished.'')
                     ''The photo has completed the transformation process.'']
             else [])"
    using assms t(1) p1 by (simp add: cancel_def trace_Photo_onFinish [OF p1(1)])
  then show ?thesis
    using t(2) by blast
qed

lemma removeFromQueue_eq:
  assumes "lookup (photo_objs w) r = Some p"
  shows "\<exists>w2 p2. removeFromQueue r w = cancel ''pending'' r w2
           \<and> lookup (photo_objs w2) r = Some p2 \<and> file p2 = file p
           \<and> window_focused w2 = window_focused w \<and> settings w2 = settings w
           \<and> nudify_queue w2 = q_delete (photo_id p) (nudify_queue w)"
proof -
  define w1 where "w1 = (case map_of (workers (nudify_queue w)) (photo_id p) of
                           None \<Rightarrow> w | Some t \<Rightarrow> cancel ''pending'' t w)"
  define w2 where "w2 = w1\<lparr>nudify_queue := q_delete (photo_id p) (nudify_queue w1)\<rparr>"
  have "map_option file (lookup (photo_objs w1) r) = map_option file (lookup (photo_objs w) r)"
    by (simp add: w1_def cancel_keeps_file split: option.splits)
  then have f: "map_option file (lookup (photo_objs w1) r) = map_option file (Some p)"
    using assms by simp
  then obtain p2 where "lookup (photo_objs w1) r = Some p2" "file p2 = file p"
    by (auto dest: map_option_eq_SomeD)
  moreover have "window_focused w1 = window_focused w" "settings w1 = settings w"
    "nudify_queue w1 = nudify_queue w"
    by (simp_all add: w1_def split: option.splits)
  moreover have "removeFromQueue r w = cancel ''pending'' r w2"
    using assms by (simp add: removeFromQueue_def Let_def w1_def w2_def)
  ultimately show ?thesis
    by (intro exI [of _ w2] exI [of _ p2]) (simp add: w2_def)
qed


text \<open>
  Claim C9.  Every call of \<^verbatim>\<open>cancel(status)\<close>, whatever the target status, goes through
  \<^verbatim>\<open>_onFinish\<close>: afterwards the photo has the target status, its timer is stopped and no caller
  of \<^verbatim>\<open>start()\<close> is suspended any more; after the requests to cancel its runs the photo has
  requested an update, emitted \<^verbatim>\<open>finish\<close> and, when no window is focused and the setting
  \<^verbatim>\<open>notifications.allRuns\<close> is truthy, raised the notification that the photo has finished.
  So \<^verbatim>\<open>removeFromQueue\<close>, which cancels with the target \<^verbatim>\<open>pending\<close>, ends with this
  notification under the same condition.
\<close>

theorem cancel_takes_finish_path:
  assumes "lookup (photo_objs w) r = Some p"
  shows "(\<exists>p'. lookup (photo_objs (cancel v r w)) r = Some p' \<and> status p' = v
              \<and> \<not> ticking (timer p') \<and> awaiting p' = 0)
       \<and> (\<exists>t. set t \<subseteq> range (EngineCancel r)
              \<and> trace (cancel v r w) =
                  trace w @ t @ [EmitUpdate, PhotoEmit r ''finish''] @
                    (if \<not> window_focused w \<and> truthy (notifications_allRuns (settings w))
                     then [Notification (camera @ '' '' @ fullname (file p) @ '' has finished.'')
                             ''The photo has completed the transformation process.'']
                     else []))
       \<and> (\<not> window_focused w \<and> truthy (notifications_allRuns (settings w)) \<longrightarrow>
            last (trace (removeFromQueue r w)) =
              Notification (camera @ '' '' @ fullname (file p) @ '' has finished.'')
                ''The photo has completed the transformation process.'')"
proof -
  have a: "\<exists>p'. lookup (photo_objs (cancel v r w)) r = Some p' \<and> status p' = v
              \<and> \<not> ticking (timer p') \<and> awaiting p' = 0"
    using cancel_photo [OF assms, of v] by blast
  obtain w2 p2 where w2: "removeFromQueue r w = cancel ''pending'' r w2"
    "lookup (photo_objs w2) r = Some p2" "file p2 = file p"
    "window_focused w2 = window_focused w" "settings w2 = settings w"
    using removeFromQueue_eq [OF assms] by blast
  have c: "last (trace (removeFromQueue r w)) =
              Notification (camera @ '' '' @ fullname (file p) @ '' has finished.'')
                ''The photo has completed the transformation process.''"
    if "\<not> window_focused w \<and> truthy (notifications_allRuns (settings w))"
    using trace_cancel [OF w2(2), of "''pending''"] w2 that by auto
  show ?thesis
    using a trace_cancel [OF assms, of v] c by blast
qed

theorem cancel_takes_finish_path_witness:
  "lookup (photo_objs waiting_world) 0 = Some waiting_photo
   \<and> status waiting_photo = ''waiting''
   \<and> \<not> window_focused waiting_world
   \<and> truthy (notifications_allRuns (settings waiting_world))
   \<and> last (trace (removeFromQueue 0 waiting_world)) =
       Notification (camera @ '' holiday.jpg has finished.'')
         ''The photo has completed the transformation process.''"
proof -
  have l: "lookup (photo_objs waiting_world) 0 = Some waiting_photo"
    by (simp add: waiting_world_eq lookup_def)
  show ?thesis
    using l cancel_takes_finish_path [OF l, of "''pending''"]
    by (simp add: waiting_world_eq waiting_photo_def default_settings_def holiday_jpg_def)
qed

section \<open>The upgrade of the settings and the snapshot of the preferences\<close>

lemma map_of_put: "map_of (put k x ob) k' = (if k' = k then Some x else map_of ob k')"
  by (induction ob) auto

lemma upgrade_no_step:
  assumes "jget dflt ''version'' = Inr (JNum 4)" and "jget payload ''version'' = Inr (JNum v)"
    and "v \<noteq> 3" and "v \<noteq> 4"
  shows "upgrade dflt payload = Inr (dflt, Some payload)"
  using assms by (simp add: upgrade_def and_then_def Let_def)

lemma upgrade_from_3:
  assumes "jget dflt ''version'' = Inr (JNum 4)" and "map_of ob ''version'' = Some (JNum 3)"
  shows "\<exists>n. upgrade dflt (JObj ob) = Inr (dflt, Some n) \<and> jget n ''version'' = Inr (JNum 4)"
  using assms by (simp add: upgrade_def and_then_def Let_def upgrade_3_4_def map_of_put)

text \<open>
  Claim C2, evaluated on the code.  With the default of the current version 4, \<^verbatim>\<open>_upgrade\<close>
  applies no step to a document of version 1: the guard of each step also asks the default's
  version to be the target of the step.  The document handed to \<^verbatim>\<open>this.set\<close> is the payload
  as it was, of version 1.
\<close>

theorem upgrade_leaves_version_1:
  "upgrade first_run_default settings_v1 = Inr (first_run_default, Some settings_v1)
   \<and> jget first_run_default ''version'' = Inr (JNum 4)
   \<and> jget settings_v1 ''version'' = Inr (JNum 1)"
  by (simp add: upgrade_def and_then_def Let_def first_run_default_def loadInitital_def
        settings_v1_def)

lemma clone_settings_preferences:
  assumes "lookup h a = Some ob"
  shows "clone h (Ref a) = (h @ [ob], Ref (length h))"
  using assms by (simp add: clone_def)

text \<open>
  Claim C1, evaluated on the code.  The snapshot is a shallow clone: after the global
  \<^verbatim>\<open>settings.preferences.body.executions\<close> is set to 5, the photo created before reads 5
  through its own preferences, where it read 1 at its creation; likewise for
  \<^verbatim>\<open>settings.preferences.advanced.scaleMode\<close>.
\<close>

theorem snapshot_follows_settings:
  "preferences_before_after holiday_jpg fresh_world [''body'', ''executions''] (Num 5)
     = Inr (Num 1, Num 5)
   \<and> preferences_before_after holiday_jpg fresh_world [''advanced'', ''scaleMode'']
       (Str ''cropjs'') = Inr (Str ''auto-rescale'', Str ''cropjs'')"
  by (simp add: preferences_before_after_def new_Photo_def clone_def lookup_def
        fresh_world_def boot_world_def default_heap_def default_settings_def validate_def
        holiday_jpg_def set_path_def set_prop_def get_prop_def)

text \<open>What the shallow clone does protect: a property of \<^verbatim>\<open>settings.preferences\<close> itself.\<close>

lemma snapshot_top_level:
  assumes "preferences_before_after f w [k] x = Inr (before, after)"
  shows "after = before"
  using assms
  by (auto simp: preferences_before_after_def new_Photo_def clone_def set_path_def set_prop_def
        get_prop_def lookup_def Let_def nth_append
        split: prod.splits option.splits sum.splits val.splits if_splits)

section \<open>One photo and its local queue\<close>

lemma set_photo_frame [simp]:
  "heap (set_photo r p t w) = heap w"
  "settings (set_photo r p t w) = settings w"
  "photos (set_photo r p t w) = photos w"
  "nudify_queue (set_photo r p t w) = nudify_queue w"
  "trace (set_photo r p t w) = trace w @ t"
  "window_focused (set_photo r p t w) = window_focused w"
  "crop_write_error (set_photo r p t w) = crop_write_error w"
  "length (photo_objs (set_photo r p t w)) = length (photo_objs w)"
  by (simp_all add: set_photo_def)

lemma lookup_set_photo [simp]:
  "lookup (photo_objs (set_photo r p t w)) a =
     (if a = r \<and> r < length (photo_objs w) then Some p else lookup (photo_objs w) a)"
  by (simp add: set_photo_def lookup_def)

lemma set_photo_twice [simp]:
  "set_photo r p2 t2 (set_photo r p1 t1 w) = set_photo r p2 (t1 @ t2) w"
  by (simp add: set_photo_def)

lemma lookup_SomeD: "lookup xs i = Some x \<Longrightarrow> i < length xs \<and> xs ! i = x"
  by (auto simp: lookup_def split: if_splits)

lemma set_photo_same: "lookup (photo_objs w) r = Some p \<Longrightarrow> set_photo r p [] w = w"
  by (auto simp: set_photo_def dest!: lookup_SomeD)

lemma upd_photo_set:
  "lookup (photo_objs w) r = Some p \<Longrightarrow> upd_photo r f w = set_photo r (f p) [] w"
  by (simp add: upd_photo_def set_photo_def)

lemma effect_set:
  "effect e (set_photo r p t w) = set_photo r p (t @ [e]) w"
  by (simp add: effect_def set_photo_def)

lemma emitUpdate_set:
  "emitUpdate (set_photo r p t w) = set_photo r p (t @ [EmitUpdate]) w"
  by (simp add: emitUpdate_def effect_set)

lemma set_status_set:
  assumes "lookup (photo_objs w) r = Some p"
  shows "set_status r v w = set_photo r (p\<lparr>status := v\<rparr>) [EmitUpdate] w"
  by (simp add: set_status_def upd_photo_set [OF assms] emitUpdate_set)

lemma reset_set:
  assumes "lookup (photo_objs w) r = Some p"
  shows "reset r w =
           set_photo r (p\<lparr>status := ''pending'', timer := new_Timer, runs := []\<rparr>) [EmitUpdate] w"
  using assms lookup_SomeD [OF assms]
  by (simp add: reset_def set_status_set [OF assms] upd_photo_set)

lemma Photo_onStart_set:
  assumes "lookup (photo_objs w) r = Some p"
  shows "Photo_onStart r w =
           set_photo r (p\<lparr>status := ''running'', timer := timer_start (timer p)\<rparr>)
             [EmitUpdate, PhotoEmit r ''start''] w"
  using assms lookup_SomeD [OF assms]
  by (simp add: Photo_onStart_def set_status_set [OF assms] upd_photo_set effect_set)

lemma push_run_set:
  assumes "lookup (photo_objs w) r = Some p"
  shows "push_run r it w = set_photo r (pushes it 1 p) [] w"
  by (simp add: push_run_def upd_photo_set [OF assms] Let_def)

lemma start_loop_set:
  assumes "lookup (photo_objs w) r = Some p"
  shows "start_loop r it (of_int (it + int k - 1)) w = set_photo r (pushes it k p) [] w"
  using assms
proof (induction k arbitrary: it w p)
  case 0
  then show ?case
    by (subst start_loop.simps) (simp add: set_photo_same)
next
  case (Suc k)
  have l: "lookup (photo_objs (push_run r it w)) r = Some (pushes it 1 p)"
    using Suc.prems lookup_SomeD [OF Suc.prems] by (simp add: push_run_set)
  have "start_loop r it (of_int (it + int (Suc k) - 1)) w
          = start_loop r (it + 1) (of_int (it + 1 + int k - 1)) (push_run r it w)"
    by (subst start_loop.simps) (simp add: algebra_simps)
  also have "\<dots> = set_photo r (pushes (it + 1) k (pushes it 1 p)) [] (push_run r it w)"
    by (rule Suc.IH [OF l])
  also have "\<dots> = set_photo r (pushes it (Suc k) p) [] w"
    by (simp add: push_run_set [OF Suc.prems])
  finally show ?case .
qed



lemma pushes_fields [simp]:
  "photo_id (pushes it k p) = photo_id p"
  "file (pushes it k p) = file p"
  "status (pushes it k p) = status p"
  "preferences (pushes it k p) = preferences p"
  "timer (pushes it k p) = timer p"
  "cropper (pushes it k p) = cropper p"
  "awaiting (pushes it k p) = awaiting p"
  "workers (queue (pushes it k p)) = workers (queue p)"
  "concurrent (queue (pushes it k p)) = concurrent (queue p)"
  by (induction k arbitrary: it p; simp add: q_push_def)+

lemma pushes_run_objs:
  "run_objs (pushes it k p) = run_objs p @ map new_PhotoRun [it..it + int k - 1]"
proof (induction k arbitrary: it p)
  case 0
  then show ?case by simp
next
  case (Suc k)
  have "[it..it + int (Suc k) - 1] = it # [it + 1..it + 1 + int k - 1]"
    by (subst upto_rec1) (simp_all add: algebra_simps)
  then show ?case
    by (simp add: Suc.IH)
qed

lemma pushes_runs:
  "runs (pushes it k p) = runs p @ [length (run_objs p)..<length (run_objs p) + k]"
proof (induction k arbitrary: it p)
  case 0
  then show ?case by simp
next
  case (Suc k)
  have "[length (run_objs p)..<length (run_objs p) + Suc k]
          = length (run_objs p) # [Suc (length (run_objs p))..<Suc (length (run_objs p)) + k]"
    by (subst upt_rec) simp
  then show ?case
    by (simp add: Suc.IH)
qed

lemma pushes_store:
  assumes "\<forall>j\<in>fst ` set (store (queue p)). j < it"
  shows "store (queue (pushes it k p)) =
           store (queue p) @ zip [it..it + int k - 1]
                               [length (run_objs p)..<length (run_objs p) + k]"
  using assms
proof (induction k arbitrary: it p)
  case 0
  then show ?case by simp
next
  case (Suc k)
  let ?p = "p\<lparr>run_objs := run_objs p @ [new_PhotoRun it],
               runs := runs p @ [length (run_objs p)],
               queue := q_push it (length (run_objs p)) (queue p)\<rparr>"
  have fresh: "it \<notin> fst ` set (store (queue p))"
    using Suc.prems by auto
  then have st: "store (q_push it (length (run_objs p)) (queue p))
                   = store (queue p) @ [(it, length (run_objs p))]"
    by (simp add: q_push_def)
  have "\<forall>j\<in>fst ` set (store (queue ?p)). j < it + 1"
    using Suc.prems by (auto simp: st)
  then have "store (queue (pushes (it + 1) k ?p)) =
               store (queue ?p) @ zip [it + 1..it + 1 + int k - 1]
                                     [length (run_objs ?p)..<length (run_objs ?p) + k]"
    by (rule Suc.IH)
  moreover have "[it..it + int (Suc k) - 1] = it # [it + 1..it + 1 + int k - 1]"
    by (subst upto_rec1) (simp_all add: algebra_simps)
  moreover have "[length (run_objs p)..<length (run_objs p) + Suc k]
          = length (run_objs p) # [Suc (length (run_objs p))..<Suc (length (run_objs p)) + k]"
    by (subst upt_rec) simp
  ultimately show ?case
    by (simp add: st)
qed

lemma length_upto_nat [simp]: "length [1..int n] = n"
  by simp

lemma nth_upto_nat: "j < n \<Longrightarrow> [1..int n] ! j = 1 + int j"
  by (simp add: nth_upto)

lemma run_ids_pushes:
  assumes "runs p = []"
  shows "run_ids (pushes 1 n p) = map Some [1..int n]"
proof (rule nth_equalityI)
  show "length (run_ids (pushes 1 n p)) = length (map Some [1..int n])"
    by (simp add: run_ids_def pushes_runs assms)
next
  fix j assume "j < length (run_ids (pushes 1 n p))"
  then have j: "j < n"
    by (simp add: run_ids_def pushes_runs assms)
  then show "run_ids (pushes 1 n p) ! j = map Some [1..int n] ! j"
    by (simp add: run_ids_def pushes_runs pushes_run_objs assms lookup_def nth_append
          nth_upto new_PhotoRun_def)
qed

section \<open>Starting a photo: the runs it creates\<close>

lemma crop_ok:
  assumes "lookup (photo_objs w) r = Some p" and "cropper p \<noteq> None" and "crop_write_error w = None"
  shows "crop r w = (Inr (), set_photo r p [WriteCrop r] w)"
  using assms lookup_SomeD [OF assms(1)]
  by (auto simp: crop_def effect_def set_photo_def)

lemma start_zero:
  assumes "lookup (photo_objs w) r = Some p"
    and "get_path (heap w) (preferences p) [''body'', ''executions''] = Inr (Num 0)"
    and "get_path (heap w) (preferences p) [''advanced'', ''scaleMode''] = Inr sm"
  shows "start r w = (Inr Returned, w)"
  using assms by (simp add: start_def)

lemma start_loop_nat:
  assumes "lookup (photo_objs w) r = Some p"
  shows "start_loop r 1 (of_nat n) w = set_photo r (pushes 1 n p) [] w"
  using start_loop_set [OF assms, of 1 n] by simp

lemma start_rest:
  assumes "lookup (photo_objs w) r = Some p" and "0 < n"
  shows "upd_photo r (\<lambda>p. p\<lparr>awaiting := awaiting p + 1\<rparr>)
           (start_loop r 1 (of_nat n) (Photo_onStart r (reset r (set_photo r p t w))))
         = set_photo r (started n p) (t @ [EmitUpdate, EmitUpdate, PhotoEmit r ''start'']) w"
proof -
  have r: "r < length (photo_objs w)"
    using lookup_SomeD [OF assms(1)] by simp
  show ?thesis
    using r
    by (simp add: reset_set Photo_onStart_set start_loop_nat upd_photo_set started_def)
qed

lemma start_set:
  assumes "lookup (photo_objs w) r = Some p" and "0 < n"
    and "get_path (heap w) (preferences p) [''body'', ''executions''] = Inr (Num (of_nat n))"
    and "get_path (heap w) (preferences p) [''advanced'', ''scaleMode''] = Inr sm"
    and "sm = Str ''cropjs'' \<longrightarrow> cropper p \<noteq> None \<and> crop_write_error w = None"
  shows "start r w =
           (Inr Suspended,
            set_photo r (started n p)
              ((if sm = Str ''cropjs'' then [WriteCrop r] else [])
                 @ [EmitUpdate, EmitUpdate, PhotoEmit r ''start'']) w)"
proof (cases "sm = Str ''cropjs''")
  case True
  then have c: "crop r w = (Inr (), set_photo r p [WriteCrop r] w)"
    using assms(1,5) by (simp add: crop_ok)
  show ?thesis
    using assms(1-4) True start_rest [OF assms(1,2), of "[WriteCrop r]"]
    by (simp add: start_def c)
next
  case False
  show ?thesis
    using assms(1-4) False start_rest [OF assms(1,2), of "[]"]
    by (simp add: start_def set_photo_same)
qed




lemma world_with_eq:
  "world_with e sm =
     \<lparr>heap = heap_with e sm @ [[(''body'', Ref 1), (''advanced'', Ref 2)]],
      settings = default_settings,
      photo_objs = [waiting_photo],
      photos = [0],
      nudify_queue = Nudify_setup\<lparr>store := [(md5 holiday_jpg, 0)]\<rparr>,
      trace = [EmitUpdate, EmitUpdate],
      window_focused = False,
      crop_write_error = None\<rparr>"
  by (simp add: world_with_def heap_with_def waiting_photo_def add_def new_Photo_def clone_def
        lookup_def default_heap_def default_settings_def boot_world_def getPhoto_def
        addToQueue_def set_status_def upd_photo_def emitUpdate_def effect_def q_push_def
        Nudify_setup_def validate_def holiday_jpg_def MAX_PHOTOS_def Let_def)

lemma world_with_prefs:
  "get_path (heap (world_with e sm)) (preferences waiting_photo) [''body'', ''executions'']
     = Inr (Num e)"
  "get_path (heap (world_with e sm)) (preferences waiting_photo) [''advanced'', ''scaleMode'']
     = Inr (Str sm)"
  by (simp_all add: world_with_eq heap_with_def default_heap_def waiting_photo_def get_prop_def
        lookup_def)

lemma world_with_photo: "lookup (photo_objs (world_with e sm)) 0 = Some waiting_photo"
  by (simp add: world_with_eq lookup_def)

lemma cancel_keeps:
  assumes "quiet F" and "\<And>p v t n. F (p\<lparr>status := v, timer := t, awaiting := n\<rparr>) = F p"
  shows "map_option F (lookup (photo_objs (cancel v t w)) a) = map_option F (lookup (photo_objs w) a)"
proof (cases "lookup (photo_objs w) t")
  case None
  then show ?thesis by (simp add: cancel_def)
next
  case (Some p)
  show ?thesis
    using quiet_fold_cancelRun [OF assms(1), of t "runs p" w t]
      quiet_fold_cancelRun [OF assms(1), of t "runs p" w a]
    by (simp add: cancel_def Some lookup_Photo_onFinish option.map_comp comp_def assms(2))
qed

lemma removeFromQueue_keeps:
  assumes "quiet F" and "\<And>p v t n. F (p\<lparr>status := v, timer := t, awaiting := n\<rparr>) = F p"
  shows "map_option F (lookup (photo_objs (removeFromQueue r w)) a)
           = map_option F (lookup (photo_objs w) a)"
  by (simp add: removeFromQueue_def Let_def cancel_keeps [OF assms] split: option.splits)

text \<open>
  Claim C8 as it is stated fails on the code.  With two executions configured, the scale mode
  \<^verbatim>\<open>cropjs\<close> and a crop tool that has never been opened, \<^verbatim>\<open>start()\<close> is rejected with the
  error of \<^verbatim>\<open>crop()\<close>, the photo is taken from the global queue, and it has no run.
\<close>

theorem start_cropjs_creates_no_run:
  "lookup (photo_objs (world_with 2 ''cropjs'')) 0 = Some waiting_photo
   \<and> get_path (heap (world_with 2 ''cropjs'')) (preferences waiting_photo)
         [''body'', ''executions''] = Inr (Num 2)
   \<and> fst (start 0 (world_with 2 ''cropjs'')) =
         Inl (AppError
           ''This photo has the manual crop selected, you must open the Crop at least once to continue.''
           ''holiday.jpg it is not ready.'' ''warn'')
   \<and> map_option runs (lookup (photo_objs (snd (start 0 (world_with 2 ''cropjs'')))) 0) = Some []
   \<and> map_option status (lookup (photo_objs (snd (start 0 (world_with 2 ''cropjs'')))) 0)
         = Some ''pending''"
proof -
  have c: "crop 0 (world_with 2 ''cropjs'') =
             (Inl (AppError
                ''This photo has the manual crop selected, you must open the Crop at least once to continue.''
                ''holiday.jpg it is not ready.'' ''warn''), world_with 2 ''cropjs'')"
    by (simp add: crop_def world_with_photo) (simp add: waiting_photo_def holiday_jpg_def)
  have s: "start 0 (world_with 2 ''cropjs'') =
             (Inl (AppError
                ''This photo has the manual crop selected, you must open the Crop at least once to continue.''
                ''holiday.jpg it is not ready.'' ''warn''),
              removeFromQueue 0 (world_with 2 ''cropjs''))"
    by (simp add: start_def world_with_photo world_with_prefs c del: get_path.simps)
  obtain w2 p2 where w2: "removeFromQueue 0 (world_with 2 ''cropjs'') = cancel ''pending'' 0 w2"
    "lookup (photo_objs w2) 0 = Some p2"
    using removeFromQueue_eq [OF world_with_photo] by blast
  have "map_option runs (lookup (photo_objs (removeFromQueue 0 (world_with 2 ''cropjs''))) 0)
          = map_option runs (lookup (photo_objs (world_with 2 ''cropjs'')) 0)"
    by (rule removeFromQueue_keeps) simp_all
  then have "map_option runs (lookup (photo_objs (removeFromQueue 0 (world_with 2 ''cropjs''))) 0)
          = Some []"
    by (simp add: world_with_photo waiting_photo_def)
  moreover have "map_option status
                   (lookup (photo_objs (removeFromQueue 0 (world_with 2 ''cropjs''))) 0)
                   = Some ''pending''"
    using cancel_photo [OF w2(2), of "''pending''"] w2(1) by auto
  ultimately show ?thesis
    by (simp add: s world_with_photo world_with_prefs del: get_path.simps)
qed

lemma reachable_photo_steps:
  "reachable w \<Longrightarrow> photo_steps r evs w = Inr w' \<Longrightarrow> reachable w'"
proof (induction evs arbitrary: w)
  case Nil
  then show ?case by simp
next
  case (Cons ev evs)
  then show ?case
    by (auto split: sum.splits intro: reachable.local_event)
qed

lemma reachable_photo_ok:
  assumes "reachable w" and "lookup (photo_objs w) r = Some p"
  shows "photo_ok p"
  using reachable_registry_ok [OF assms(1)] lookup_SomeD [OF assms(2)]
  by (auto simp: registry_ok_def list_all_length)


lemma run_ids_awaiting [simp]: "run_ids (p\<lparr>awaiting := n\<rparr>) = run_ids p"
  by (simp add: run_ids_def)

lemma started_fields:
  "status (started n p) = ''running''"
  "length (runs (started n p)) = n"
  "run_ids (started n p) = map Some [1..int n]"
  "concurrent (queue (started n p)) = concurrent (queue p)"
  "workers (queue (started n p)) = workers (queue p)"
  "file (started n p) = file p"
  "awaiting (started n p) = Suc (awaiting p)"
  by (simp_all add: started_def pushes_runs run_ids_pushes)

lemma started_store:
  assumes "store (queue p) = []"
  shows "store (queue (started n p)) = zip [1..int n] (runs (started n p))"
  using assms by (simp add: started_def pushes_store pushes_runs)

section \<open>Draining the local queue\<close>

lemma photo_steps_append:
  "photo_steps r (xs @ ys) w =
     (case photo_steps r xs w of Inl e \<Rightarrow> Inl e | Inr w' \<Rightarrow> photo_steps r ys w')"
  by (induction xs arbitrary: w) (simp_all split: sum.splits)

lemma getRunById_upd [simp]:
  "getRunById (upd_run a f p) i = getRunById p i"
  "getRunById (p\<lparr>queue := q\<rparr>) i = getRunById p i"
  by (simp_all add: getRunById_def)

lemma task_started_set:
  assumes "lookup (photo_objs w) r = Some p" and "store (queue p) = (i, a) # rest"
    and "workers (queue p) = []" and "concurrent (queue p) = 1"
  shows "task_started r w =
           Inr (set_photo r (upd_run a run_onStart (p\<lparr>queue := q_take (queue p)\<rparr>))
                  [EngineStart r i] w)"
  using assms by (simp add: task_started_def q_ready_def upd_photo_set effect_set)

lemma unit_step:
  assumes "lookup (photo_objs w) r = Some p" and "store (queue p) = (i, a) # rest"
    and "workers (queue p) = []" and "concurrent (queue p) = 1"
    and "getRunById p i = Some a"
  shows "photo_steps r (unit_events out i) w =
           Inr (set_photo r (unit_done out p) (unit_effects r out i) w)"
proof -
  let ?p1 = "upd_run a run_onStart (p\<lparr>queue := q_take (queue p)\<rparr>)"
  let ?w1 = "set_photo r ?p1 [EngineStart r i] w"
  have r: "r < length (photo_objs w)"
    using lookup_SomeD [OF assms(1)] by simp
  have l1: "lookup (photo_objs ?w1) r = Some ?p1"
    using r by simp
  have wk: "workers (queue ?p1) = [(i, a)]"
    using assms(2,3) by (simp add: q_take_def)
  have g: "getRunById ?p1 i = Some a"
    using assms(5) by simp
  have fin: "task_finish r i ?w1 =
               Inr (set_photo r (unit_done out p) (unit_effects r out i) w)"
    if "out i = None"
    using that assms(2) wk g
    by (simp add: task_finish_def l1 upd_photo_set [OF l1] unit_done_def unit_effects_def
          unit_hook_def del: lookup_set_photo)
  have fail: "task_failed r i err ?w1 =
               Inr (set_photo r (unit_done out p) (unit_effects r out i) w)"
    if "out i = Some err" for err
    using that assms(2) wk g
    by (simp add: task_failed_def l1 upd_photo_set [OF l1] unit_done_def unit_effects_def
          unit_hook_def effect_set Let_def del: lookup_set_photo)
  show ?thesis
    using fin fail
    by (cases "out i") (simp_all add: unit_events_def task_started_set [OF assms(1-4)])
qed


lemma unit_done_fields:
  assumes "store (queue p) = (i, a) # rest" and "workers (queue p) = []"
  shows "store (queue (unit_done out p)) = rest"
    and "workers (queue (unit_done out p)) = []"
    and "concurrent (queue (unit_done out p)) = concurrent (queue p)"
  using assms by (simp_all add: unit_done_def q_take_def q_release_def)

lemma unit_done_same [simp]:
  "runs (unit_done out p) = runs p"
  "status (unit_done out p) = status p"
  "file (unit_done out p) = file p"
  "awaiting (unit_done out p) = awaiting p"
  "timer (unit_done out p) = timer p"
  "getRunById (unit_done out p) j = getRunById p j"
  "length (run_objs (unit_done out p)) = length (run_objs p)"
  by (simp_all add: unit_done_def split: list.splits)

lemma lookup_upd_run:
  "lookup (run_objs (upd_run a f p)) x =
     (if x = a then map_option f (lookup (run_objs p) a) else lookup (run_objs p) x)"
  by (auto simp: upd_run_def lookup_def split: option.splits if_splits)

lemma run_objs_queue [simp]: "run_objs (p\<lparr>queue := q\<rparr>) = run_objs p"
  by simp

lemma unit_done_lookup:
  assumes "store (queue p) = (i, a) # rest"
  shows "lookup (run_objs (unit_done out p)) x =
           (if x = a then map_option (unit_hook (out i) \<circ> run_onStart) (lookup (run_objs p) a)
            else lookup (run_objs p) x)"
proof -
  have q: "run_objs ((upd_run a run_onStart (p\<lparr>queue := q1\<rparr>))\<lparr>queue := q2\<rparr>)
             = run_objs (upd_run a run_onStart p)" for q1 q2
    by (simp add: upd_run_def split: option.splits)
  have "lookup (run_objs (upd_run a f (p'\<lparr>queue := q\<rparr>))) x =
          (if x = a then map_option f (lookup (run_objs p') a) else lookup (run_objs p') x)"
    for f p' q
    using lookup_upd_run [of a f "p'\<lparr>queue := q\<rparr>" x] by simp
  then show ?thesis
    using assms
    by (simp add: unit_done_def lookup_upd_run option.map_comp)
qed

lemma process_fields:
  assumes "map fst (store (queue p)) = ids" and "workers (queue p) = []"
  shows "store (queue (process out (length ids) p)) = []"
    and "workers (queue (process out (length ids) p)) = []"
    and "concurrent (queue (process out (length ids) p)) = concurrent (queue p)"
  using assms
proof (induction ids arbitrary: p)
  case Nil
  {
    case 1 then show ?case by simp
  next
    case 2 then show ?case by simp
  next
    case 3 then show ?case by simp
  }
next
  case (Cons i ids)
  {
    case 1
    then obtain a rest where s: "store (queue p) = (i, a) # rest" "map fst rest = ids"
      by (cases "store (queue p)") auto
    show ?case
      using Cons.IH(1) [of "unit_done out p"] s 1(2)
      by (simp add: unit_done_fields [OF s(1) 1(2)])
  next
    case 2
    then obtain a rest where s: "store (queue p) = (i, a) # rest" "map fst rest = ids"
      by (cases "store (queue p)") auto
    show ?case
      using Cons.IH(2) [of "unit_done out p"] s 2(2)
      by (simp add: unit_done_fields [OF s(1) 2(2)])
  next
    case 3
    then obtain a rest where s: "store (queue p) = (i, a) # rest" "map fst rest = ids"
      by (cases "store (queue p)") auto
    show ?case
      using Cons.IH(3) [of "unit_done out p"] s 3(2)
      by (simp add: unit_done_fields [OF s(1) 3(2)])
  }
qed

lemma process_same [simp]:
  "runs (process out k p) = runs p"
  "status (process out k p) = status p"
  "file (process out k p) = file p"
  "awaiting (process out k p) = awaiting p"
  "timer (process out k p) = timer p"
  "length (run_objs (process out k p)) = length (run_objs p)"
  by (induction k arbitrary: p; simp)+

lemma run_units:
  assumes "lookup (photo_objs w) r = Some p" and "map fst (store (queue p)) = ids"
    and "workers (queue p) = []" and "concurrent (queue p) = 1"
    and "\<forall>(i, a)\<in>set (store (queue p)). getRunById p i = Some a"
  shows "photo_steps r (concat (map (unit_events out) ids)) w =
           Inr (set_photo r (process out (length ids) p)
                  (concat (map (unit_effects r out) ids)) w)"
  using assms
proof (induction ids arbitrary: p w)
  case Nil
  then show ?case by (simp add: set_photo_same)
next
  case (Cons i ids)
  obtain a rest where s: "store (queue p) = (i, a) # rest" "map fst rest = ids"
    using Cons.prems(2) by (cases "store (queue p)") auto
  let ?w1 = "set_photo r (unit_done out p) (unit_effects r out i) w"
  have g: "getRunById p i = Some a"
    using Cons.prems(5) s(1) by simp
  have u: "photo_steps r (unit_events out i) w = Inr ?w1"
    by (rule unit_step [OF Cons.prems(1) s(1) Cons.prems(3,4) g])
  have l1: "lookup (photo_objs ?w1) r = Some (unit_done out p)"
    using lookup_SomeD [OF Cons.prems(1)] by simp
  have "photo_steps r (concat (map (unit_events out) ids)) ?w1 =
          Inr (set_photo r (process out (length ids) (unit_done out p))
                 (concat (map (unit_effects r out) ids)) ?w1)"
    using Cons.prems(3,4,5) s
    by (intro Cons.IH [OF l1]) (auto simp: unit_done_fields [OF s(1) Cons.prems(3)])
  then show ?case
    by (simp add: photo_steps_append u)
qed



lemma run_status_hook [simp]: "run_status (unit_hook result run) = outcome_status result"
  by (simp add: unit_hook_def outcome_status_def run_onFinish_def run_onFail_def
        split: option.splits)

lemma process_other:
  assumes "store (queue p) = ts" and "workers (queue p) = []" and "x \<notin> snd ` set ts"
  shows "lookup (run_objs (process out (length ts) p)) x = lookup (run_objs p) x"
  using assms
proof (induction ts arbitrary: p)
  case Nil
  then show ?case by simp
next
  case (Cons t ts)
  obtain i a where t: "t = (i, a)" by (cases t)
  have s: "store (queue p) = (i, a) # ts"
    using Cons.prems(1) t by simp
  have "lookup (run_objs (process out (length ts) (unit_done out p))) x
          = lookup (run_objs (unit_done out p)) x"
    using Cons.prems(3) by (intro Cons.IH) (simp_all add: unit_done_fields [OF s Cons.prems(2)])
  then show ?case
    using Cons.prems(3) t by (simp add: unit_done_lookup [OF s])
qed

lemma process_status:
  assumes "store (queue p) = ts" and "workers (queue p) = []" and "distinct (map snd ts)"
    and "(i, a) \<in> set ts" and "a < length (run_objs p)"
  shows "map_option run_status (lookup (run_objs (process out (length ts) p)) a)
           = Some (outcome_status (out i))"
  using assms
proof (induction ts arbitrary: p)
  case Nil
  then show ?case by simp
next
  case (Cons t ts)
  obtain j b where t: "t = (j, b)" by (cases t)
  have s: "store (queue p) = (j, b) # ts"
    using Cons.prems(1) t by simp
  note f = unit_done_fields [OF s Cons.prems(2)]
  show ?case
  proof (cases "(i, a) = (j, b)")
    case True
    have "a \<notin> snd ` set ts"
      using Cons.prems(3) t True by auto
    then have "lookup (run_objs (process out (length ts) (unit_done out p))) a
                 = lookup (run_objs (unit_done out p)) a"
      by (intro process_other) (simp_all add: f)
    then show ?thesis
      using True Cons.prems(5)
      by (simp add: unit_done_lookup [OF s] option.map_comp comp_def) (simp add: lookup_def)
  next
    case False
    then have "(i, a) \<in> set ts"
      using Cons.prems(4) t by auto
    then have "map_option run_status (lookup (run_objs (process out (length ts) (unit_done out p))) a)
                 = Some (outcome_status (out i))"
      using Cons.prems(3,5) by (intro Cons.IH) (simp_all add: f)
    then show ?thesis by simp
  qed
qed

lemma drain_set:
  assumes "lookup (photo_objs w) r = Some p" and "store (queue p) = []" and "workers (queue p) = []"
  shows "drain r w = Inr (Photo_onFinish ''finished'' r w)"
  using assms by (simp add: drain_def q_idle_def)


lemma started_tasks:
  assumes "store (queue p) = []"
  shows "map fst (store (queue (started n p))) = [1..int n]"
    and "map snd (store (queue (started n p))) = runs (started n p)"
    and "\<forall>(i, a)\<in>set (store (queue (started n p))). getRunById (started n p) i = Some a"
proof -
  have l: "length (runs (started n p)) = n"
    by (simp add: started_fields)
  show "map fst (store (queue (started n p))) = [1..int n]"
    and "map snd (store (queue (started n p))) = runs (started n p)"
    by (simp_all add: started_store [OF assms] l)
  show "\<forall>(i, a)\<in>set (store (queue (started n p))). getRunById (started n p) i = Some a"
  proof (clarify)
    fix i a assume "(i, a) \<in> set (store (queue (started n p)))"
    then obtain j where j: "j < n" "i = [1..int n] ! j" "a = runs (started n p) ! j"
      using l by (auto simp: started_store [OF assms] in_set_zip)
    then have "i = 1 + int j"
      by (simp add: nth_upto)
    then show "getRunById (started n p) i = Some a"
      using j l by (simp add: getRunById_def)
  qed
qed

lemma run_statuses_finish [simp]:
  "run_statuses (p\<lparr>status := v, timer := t, awaiting := k\<rparr>) = run_statuses p"
  by (simp add: run_statuses_def)

lemma started_run_objs:
  "length (run_objs (started n p)) = length (run_objs p) + n"
  "runs (started n p) = [length (run_objs p)..<length (run_objs p) + n]"
  by (simp_all add: started_def pushes_run_objs pushes_runs)

lemma run_statuses_processed:
  assumes "store (queue p) = []" and "workers (queue p) = []"
  shows "run_statuses (process out n (started n p))
           = map (\<lambda>i. Some (outcome_status (out i))) [1..int n]"
proof (rule nth_equalityI)
  show "length (run_statuses (process out n (started n p)))
          = length (map (\<lambda>i. Some (outcome_status (out i))) [1..int n])"
    by (simp add: run_statuses_def started_fields)
next
  fix j assume "j < length (run_statuses (process out n (started n p)))"
  then have j: "j < n"
    by (simp add: run_statuses_def started_fields)
  let ?ts = "store (queue (started n p))"
  let ?a = "length (run_objs p) + j"
  have len: "length ?ts = n"
    using started_tasks(1) [OF assms(1), of n] length_map [of fst ?ts] by simp
  have d: "distinct (map snd ?ts)"
    by (simp add: started_tasks(2) [OF assms(1)] started_run_objs)
  have m: "(1 + int j, ?a) \<in> set ?ts"
    using j by (auto simp: started_store [OF assms(1)] started_run_objs in_set_zip nth_upto
        intro!: exI [of _ j])
  have "map_option run_status (lookup (run_objs (process out (length ?ts) (started n p))) ?a)
          = Some (outcome_status (out (1 + int j)))"
    using j by (intro process_status [OF refl _ d m]) (simp_all add: started_fields assms started_run_objs)
  then show "run_statuses (process out n (started n p)) ! j
               = map (\<lambda>i. Some (outcome_status (out i))) [1..int n] ! j"
    using j by (simp add: run_statuses_def len started_run_objs nth_upto)
qed

text \<open>
  Claim C4.  A failing run does not stop the runs after it.  After a \<^verbatim>\<open>start()\<close> that has
  queued the runs 1 to \<open>n\<close> on an idle local queue, and whatever the engine makes of each run
  (\<open>out\<close>), the queue starts and ends every run in order and then drains: each run is handed to
  the engine, a failed run gets \<^verbatim>\<open>onFail\<close> and its error goes to \<^verbatim>\<open>AppError.handle\<close>
  unless it is \<^verbatim>\<open>'cancelled'\<close>, a successful run gets \<^verbatim>\<open>onFinish\<close>, and the drain sets
  the photo to \<^verbatim>\<open>finished\<close>, resumes the caller of \<^verbatim>\<open>start()\<close>, and goes through the
  notification.
\<close>

theorem failed_unit_does_not_stop_the_queue:
  assumes "reachable w" and "lookup (photo_objs w) r = Some p" and "q_idle (queue p)"
    and "get_path (heap w) (preferences p) [''body'', ''executions''] = Inr (Num (of_nat n))"
    and "0 < n"
    and "get_path (heap w) (preferences p) [''advanced'', ''scaleMode''] = Inr sm"
    and "sm = Str ''cropjs'' \<longrightarrow> cropper p \<noteq> None \<and> crop_write_error w = None"
  shows "\<exists>w'. photo_steps r (drain_events out n) (snd (start r w)) = Inr w'
           \<and> trace w' =
               trace (snd (start r w)) @ concat (map (unit_effects r out) [1..int n])
                 @ [EmitUpdate, PhotoEmit r ''finish'']
                 @ (if \<not> window_focused w \<and> truthy (notifications_allRuns (settings w))
                    then [Notification (camera @ '' '' @ fullname (file p) @ '' has finished.'')
                            ''The photo has completed the transformation process.'']
                    else [])
           \<and> (\<exists>p'. lookup (photo_objs w') r = Some p' \<and> status p' = ''finished''
                  \<and> awaiting p' = 0 \<and> q_idle (queue p')
                  \<and> run_statuses p' = map (\<lambda>i. Some (outcome_status (out i))) [1..int n])"
proof -
  have idle: "store (queue p) = []" "workers (queue p) = []"
    using assms(3) by (simp_all add: q_idle_def)
  have c1: "concurrent (queue p) = 1"
    using reachable_photo_ok [OF assms(1,2)] by (simp add: photo_ok_def)
  have r: "r < length (photo_objs w)"
    using lookup_SomeD [OF assms(2)] by simp
  define T where "T = (if sm = Str ''cropjs'' then [WriteCrop r] else [])
                        @ [EmitUpdate, EmitUpdate, PhotoEmit r ''start'']"
  define w1 where "w1 = set_photo r (started n p) T w"
  define E where "E = concat (map (unit_effects r out) [1..int n])"
  define P where "P = process out n (started n p)"
  define w2 where "w2 = set_photo r P E w1"
  have s: "snd (start r w) = w1"
    by (simp add: start_set [OF assms(2,5,4,6,7)] w1_def T_def)
  have l1: "lookup (photo_objs w1) r = Some (started n p)"
    using r by (simp add: w1_def)
  have u: "photo_steps r (concat (map (unit_events out) [1..int n])) w1 = Inr w2"
    using run_units [OF l1 started_tasks(1) [OF idle(1)] _ _ started_tasks(3) [OF idle(1)], of out]
    by (simp add: started_fields idle c1 w2_def E_def P_def)
  have l2: "lookup (photo_objs w2) r = Some P"
    using r by (simp add: w2_def w1_def)
  have q: "store (queue P) = []" "workers (queue P) = []"
    using process_fields(1,2) [OF started_tasks(1) [OF idle(1)], of n out]
    by (simp_all add: P_def started_fields idle)
  have d: "photo_steps r (concat (map (unit_events out) [1..int n]) @ [Drain]) w1
             = Inr (Photo_onFinish ''finished'' r w2)"
    by (simp add: photo_steps_append u drain_set [OF l2 q])
  have t: "trace (Photo_onFinish ''finished'' r w2) =
             trace w1 @ E @ [EmitUpdate, PhotoEmit r ''finish'']
               @ (if \<not> window_focused w \<and> truthy (notifications_allRuns (settings w))
                  then [Notification (camera @ '' '' @ fullname (file p) @ '' has finished.'')
                          ''The photo has completed the transformation process.'']
                  else [])"
    by (simp add: trace_Photo_onFinish [OF l2] P_def started_fields)
       (simp add: w2_def w1_def)
  have f: "lookup (photo_objs (Photo_onFinish ''finished'' r w2)) r
             = Some (P\<lparr>status := ''finished'', timer := timer_stop (timer P), awaiting := 0\<rparr>)"
    by (simp add: lookup_Photo_onFinish l2)
  have rs: "run_statuses P = map (\<lambda>i. Some (outcome_status (out i))) [1..int n]"
    unfolding P_def by (rule run_statuses_processed [OF idle])
  show ?thesis
    unfolding s drain_events_def
    by (intro exI [of _ "Photo_onFinish ''finished'' r w2"] conjI d
          exI [of _ "P\<lparr>status := ''finished'', timer := timer_stop (timer P), awaiting := 0\<rparr>"] f)
       (simp_all add: t E_def q q_idle_def rs)
qed



lemma reachable_world_with: "reachable (world_with e sm)"
  unfolding world_with_def by (intro reachable.add reachable.boot)

lemma upto_1_3: "[1..3] = [1, 2, 3::int]"
  by (simp add: upto.simps)

lemma waiting_photo_idle: "q_idle (queue waiting_photo)"
  by (simp add: waiting_photo_def setupQueue_def q_idle_def)

theorem failed_unit_does_not_stop_the_queue_witness:
  "reachable (world_with 3 ''auto-rescale'')
   \<and> lookup (photo_objs (world_with 3 ''auto-rescale'')) 0 = Some waiting_photo
   \<and> q_idle (queue waiting_photo)
   \<and> get_path (heap (world_with 3 ''auto-rescale'')) (preferences waiting_photo)
         [''body'', ''executions''] = Inr (Num (of_nat 3))
   \<and> get_path (heap (world_with 3 ''auto-rescale'')) (preferences waiting_photo)
         [''advanced'', ''scaleMode''] = Inr (Str ''auto-rescale'')
   \<and> (\<exists>w'. photo_steps 0 (drain_events second_fails 3)
               (snd (start 0 (world_with 3 ''auto-rescale''))) = Inr w'
          \<and> trace w' =
              trace (snd (start 0 (world_with 3 ''auto-rescale'')))
                @ [EngineStart 0 1, EngineStart 0 2, Handle (Str ''engine error''),
                   EngineStart 0 3, EmitUpdate, PhotoEmit 0 ''finish'',
                   Notification (camera @ '' holiday.jpg has finished.'')
                     ''The photo has completed the transformation process.'']
          \<and> (\<exists>p'. lookup (photo_objs w') 0 = Some p' \<and> status p' = ''finished''
                 \<and> run_statuses p' = [Some Finished, Some Failed, Some Finished]))"
proof -
  have e: "get_path (heap (world_with 3 ''auto-rescale'')) (preferences waiting_photo)
             [''body'', ''executions''] = Inr (Num (of_nat 3))"
    using world_with_prefs(1) [of 3 "''auto-rescale''"] by simp
  have f: "\<not> window_focused (world_with 3 ''auto-rescale'')"
    "truthy (notifications_allRuns (settings (world_with 3 ''auto-rescale'')))"
    "fullname (file waiting_photo) = ''holiday.jpg''"
    by (simp_all add: world_with_eq default_settings_def waiting_photo_def holiday_jpg_def)
  show ?thesis
    using failed_unit_does_not_stop_the_queue
      [OF reachable_world_with world_with_photo waiting_photo_idle e _ world_with_prefs(2),
       of second_fails]
    by (simp add: reachable_world_with world_with_photo waiting_photo_idle e world_with_prefs(2)
          f upto_1_3 unit_effects_def second_fails_def outcome_status_def
          del: get_path.simps)
       blast
qed


section \<open>The emissions of the change notification\<close>

lemma debounce_in_burst:
  "burst wait (t # ts) \<Longrightarrow>
   debounce wait leading trailing (Some (t, lastArgs)) ts =
     (if trailing \<and> (lastArgs \<or> ts \<noteq> []) then [last (t # ts) + wait] else [])"
proof (induction ts arbitrary: t lastArgs)
  case Nil
  then show ?case by (simp add: trailing_edge_def)
next
  case (Cons u us)
  then show ?case by simp
qed




section \<open>What a cancellation does to a photo\<close>

lemma cancelRun_photo:
  assumes "lookup (photo_objs w) r = Some p"
  shows "\<exists>p'. lookup (photo_objs (cancelRun r x w)) r = Some p'
           \<and> workers (queue p') = workers (queue p) \<and> runs p' = runs p
           \<and> length (run_objs p') = length (run_objs p)
           \<and> (\<forall>y. map_option run_id (lookup (run_objs p') y)
                    = map_option run_id (lookup (run_objs p) y))
           \<and> set (store (queue p')) \<subseteq> set (store (queue p))
           \<and> (\<forall>j. map_option run_id (lookup (run_objs p) x) = Some j
                    \<longrightarrow> j \<notin> fst ` set (store (queue p')))"
proof (cases "lookup (run_objs p) x")
  case None
  then show ?thesis
    using assms by (simp add: cancelRun_def)
next
  case (Some run)
  show ?thesis
    using assms Some
    by (cases "map_of (workers (queue p)) (run_id run)")
       (auto simp: cancelRun_def Photo_queue_cancel_def Let_def q_delete_def lookup_upd_run
          run_cancel_def option.map_comp comp_def)
qed

lemma fold_cancelRun_photo:
  assumes "lookup (photo_objs w) r = Some p"
  shows "\<exists>p'. lookup (photo_objs (fold (cancelRun r) xs w)) r = Some p'
           \<and> workers (queue p') = workers (queue p) \<and> runs p' = runs p
           \<and> length (run_objs p') = length (run_objs p)
           \<and> (\<forall>y. map_option run_id (lookup (run_objs p') y)
                    = map_option run_id (lookup (run_objs p) y))
           \<and> set (store (queue p')) \<subseteq> set (store (queue p))
           \<and> (\<forall>x\<in>set xs. \<forall>j. map_option run_id (lookup (run_objs p) x) = Some j
                    \<longrightarrow> j \<notin> fst ` set (store (queue p')))"
  using assms
proof (induction xs arbitrary: w p)
  case Nil
  then show ?case by simp
next
  case (Cons x xs)
  obtain p1 where p1: "lookup (photo_objs (cancelRun r x w)) r = Some p1"
    "workers (queue p1) = workers (queue p)" "runs p1 = runs p"
    "length (run_objs p1) = length (run_objs p)"
    "\<And>y. map_option run_id (lookup (run_objs p1) y) = map_option run_id (lookup (run_objs p) y)"
    "set (store (queue p1)) \<subseteq> set (store (queue p))"
    "\<And>j. map_option run_id (lookup (run_objs p) x) = Some j
          \<Longrightarrow> j \<notin> fst ` set (store (queue p1))"
    using cancelRun_photo [OF Cons.prems, of x] by blast
  obtain p2 where p2: "lookup (photo_objs (fold (cancelRun r) xs (cancelRun r x w))) r = Some p2"
    "workers (queue p2) = workers (queue p1)" "runs p2 = runs p1"
    "length (run_objs p2) = length (run_objs p1)"
    "\<And>y. map_option run_id (lookup (run_objs p2) y) = map_option run_id (lookup (run_objs p1) y)"
    "set (store (queue p2)) \<subseteq> set (store (queue p1))"
    "\<And>y j. y \<in> set xs \<Longrightarrow> map_option run_id (lookup (run_objs p1) y) = Some j
          \<Longrightarrow> j \<notin> fst ` set (store (queue p2))"
    using Cons.IH [OF p1(1)] by blast
  have a: "j \<notin> fst ` set (store (queue p2))"
    if "y \<in> set (x # xs)" "map_option run_id (lookup (run_objs p) y) = Some j" for y j
  proof (cases "y = x")
    case True
    then have "j \<notin> fst ` set (store (queue p1))"
      using p1(7) that(2) by simp
    then show ?thesis
      using p2(6) by blast
  next
    case False
    then have "y \<in> set xs"
      using that(1) by simp
    then show ?thesis
      using p2(7) [of y j] p1(5) [of y] that(2) by simp
  qed
  have b: "set (store (queue p2)) \<subseteq> set (store (queue p))"
    using p1(6) p2(6) by blast
  show ?case
    using p2(1) p1(2-5) p2(2-5) a b
    by (intro exI [of _ p2]) simp
qed

lemma cancel_queue:
  assumes "lookup (photo_objs w) r = Some p"
  shows "\<exists>p'. lookup (photo_objs (cancel v r w)) r = Some p' \<and> status p' = v
           \<and> workers (queue p') = workers (queue p) \<and> runs p' = runs p
           \<and> length (run_objs p') = length (run_objs p) \<and> run_ids p' = run_ids p
           \<and> set (store (queue p')) \<subseteq> set (store (queue p))
           \<and> (\<forall>j\<in>fst ` set (store (queue p')). Some j \<notin> set (run_ids p))"
proof -
  obtain p1 where p1: "lookup (photo_objs (fold (cancelRun r) (runs p) w)) r = Some p1"
    "workers (queue p1) = workers (queue p)" "runs p1 = runs p"
    "length (run_objs p1) = length (run_objs p)"
    "\<And>y. map_option run_id (lookup (run_objs p1) y) = map_option run_id (lookup (run_objs p) y)"
    "set (store (queue p1)) \<subseteq> set (store (queue p))"
    "\<And>y j. y \<in> set (runs p) \<Longrightarrow> map_option run_id (lookup (run_objs p) y) = Some j
          \<Longrightarrow> j \<notin> fst ` set (store (queue p1))"
    using fold_cancelRun_photo [OF assms, of "runs p"] by blast
  let ?p = "p1\<lparr>status := v, timer := timer_stop (timer p1), awaiting := 0\<rparr>"
  have l: "lookup (photo_objs (cancel v r w)) r = Some ?p"
    using assms p1(1) by (simp add: cancel_def lookup_Photo_onFinish)
  have ids: "run_ids ?p = run_ids p"
    using p1(3,5) by (simp add: run_ids_def)
  have c: "\<forall>j\<in>fst ` set (store (queue ?p)). Some j \<notin> set (run_ids p)"
  proof (intro ballI notI)
    fix j assume j: "j \<in> fst ` set (store (queue ?p))" "Some j \<in> set (run_ids p)"
    from j(2) obtain y where "y \<in> set (runs p)"
      "map_option run_id (lookup (run_objs p) y) = Some j"
      unfolding run_ids_def by (metis (no_types, lifting) imageE list.set_map)
    then have "j \<notin> fst ` set (store (queue p1))"
      by (rule p1(7))
    then show False
      using j(1) by simp
  qed
  show ?thesis
    using l ids c p1(2,3,4,6) by (intro exI [of _ ?p]) simp
qed

lemma cancelRun_other:
  "t \<noteq> r \<Longrightarrow> lookup (photo_objs (cancelRun t x w)) r = lookup (photo_objs w) r"
  by (simp add: cancelRun_def Photo_queue_cancel_def Let_def split: option.splits)

lemma fold_cancelRun_other:
  "t \<noteq> r \<Longrightarrow> lookup (photo_objs (fold (cancelRun t) xs w)) r = lookup (photo_objs w) r"
  by (induction xs arbitrary: w) (simp_all add: cancelRun_other)

lemma cancel_other:
  "t \<noteq> r \<Longrightarrow> lookup (photo_objs (cancel v t w)) r = lookup (photo_objs w) r"
  by (simp add: cancel_def lookup_Photo_onFinish fold_cancelRun_other split: option.splits)

lemma removeFromQueue_photo:
  assumes "lookup (photo_objs w) r = Some p"
  shows "\<exists>p'. lookup (photo_objs (removeFromQueue r w)) r = Some p' \<and> status p' = ''pending''
           \<and> workers (queue p') = workers (queue p) \<and> runs p' = runs p
           \<and> length (run_objs p') = length (run_objs p) \<and> run_ids p' = run_ids p
           \<and> set (store (queue p')) \<subseteq> set (store (queue p))
           \<and> (\<forall>j\<in>fst ` set (store (queue p')). Some j \<notin> set (run_ids p))"
proof -
  define w1 where "w1 = (case map_of (workers (nudify_queue w)) (photo_id p) of
                           None \<Rightarrow> w | Some t \<Rightarrow> cancel ''pending'' t w)"
  define w2 where "w2 = w1\<lparr>nudify_queue := q_delete (photo_id p) (nudify_queue w1)\<rparr>"
  have "\<exists>p1. lookup (photo_objs w1) r = Some p1
           \<and> workers (queue p1) = workers (queue p) \<and> runs p1 = runs p
           \<and> length (run_objs p1) = length (run_objs p) \<and> run_ids p1 = run_ids p
           \<and> set (store (queue p1)) \<subseteq> set (store (queue p))"
  proof (cases "map_of (workers (nudify_queue w)) (photo_id p)")
    case None
    then show ?thesis
      using assms by (simp add: w1_def)
  next
    case (Some t)
    show ?thesis
    proof (cases "t = r")
      case True
      then show ?thesis
        using cancel_queue [OF assms, of "''pending''"] Some by (auto simp: w1_def)
    next
      case False
      then show ?thesis
        using assms Some by (simp add: w1_def cancel_other)
    qed
  qed
  then obtain p1 where p1: "lookup (photo_objs w2) r = Some p1"
    "workers (queue p1) = workers (queue p)" "runs p1 = runs p"
    "length (run_objs p1) = length (run_objs p)" "run_ids p1 = run_ids p"
    "set (store (queue p1)) \<subseteq> set (store (queue p))"
    by (auto simp: w2_def)
  have eq: "removeFromQueue r w = cancel ''pending'' r w2"
    using assms by (simp add: removeFromQueue_def Let_def w1_def w2_def)
  obtain p' where p': "lookup (photo_objs (cancel ''pending'' r w2)) r = Some p'"
    "status p' = ''pending''"
    "workers (queue p') = workers (queue p1)" "runs p' = runs p1"
    "length (run_objs p') = length (run_objs p1)" "run_ids p' = run_ids p1"
    "set (store (queue p')) \<subseteq> set (store (queue p1))"
    "\<forall>j\<in>fst ` set (store (queue p')). Some j \<notin> set (run_ids p1)"
    using cancel_queue [OF p1(1), of "''pending''"] by blast
  have "set (store (queue p')) \<subseteq> set (store (queue p))"
    using p'(7) p1(6) by blast
  then show ?thesis
    using p'(1-6,8) p1(2-5) by (intro exI [of _ p']) (simp add: eq)
qed

lemma removeFromQueue_global:
  assumes "lookup (photo_objs w) r = Some p"
  shows "nudify_queue (removeFromQueue r w) = q_delete (photo_id p) (nudify_queue w)"
  using assms by (simp add: removeFromQueue_def Let_def split: option.splits)

section \<open>Starting a photo: every outcome\<close>

lemma crop_no_cropper:
  assumes "lookup (photo_objs w) r = Some p" and "cropper p = None"
  shows "crop r w =
           (Inl (AppError
              ''This photo has the manual crop selected, you must open the Crop at least once to continue.''
              (fullname (file p) @ '' it is not ready.'') ''warn''), w)"
  using assms by (simp add: crop_def)

lemma crop_write_fails:
  assumes "lookup (photo_objs w) r = Some p" and "cropper p \<noteq> None"
    and "crop_write_error w = Some e"
  shows "crop r w = (Inl (Rejected e), w)"
  using assms by (auto simp: crop_def)

lemma start_crop_fails:
  assumes "lookup (photo_objs w) r = Some p" and "0 < n"
    and "get_path (heap w) (preferences p) [''body'', ''executions''] = Inr (Num (of_nat n))"
    and "get_path (heap w) (preferences p) [''advanced'', ''scaleMode''] = Inr (Str ''cropjs'')"
    and "crop r w = (Inl err, w)"
  shows "start r w = (Inl err, removeFromQueue r w)"
  using assms by (simp add: start_def)

text \<open>
  Claim C8, amended.  Let the execution count of a photo be the number \<open>n\<close>.  If \<open>n\<close> is 0,
  \<^verbatim>\<open>start()\<close> returns at once and the state is as before: no run, no status change, no
  effect.  If \<open>n\<close> is positive and the crop step is not required (the scale mode is not
  \<^verbatim>\<open>cropjs\<close>) or succeeds, \<^verbatim>\<open>start()\<close> suspends its caller with the photo running, it
  has created \<open>n\<close> runs, and \<^verbatim>\<open>this.runs\<close> holds exactly these \<open>n\<close> runs with the indices
  1 to \<open>n\<close> in order, which a local queue that was empty holds as its tasks in the same order.
  If \<open>n\<close> is positive, the scale mode is \<^verbatim>\<open>cropjs\<close> and the crop step fails, because the
  crop tool has never been opened or because the cropped file cannot be written, \<^verbatim>\<open>start()\<close>
  is rejected with the error of the crop step, the state is the one that \<^verbatim>\<open>removeFromQueue\<close>
  leaves, so the store of the global queue has no task under the id of the photo and the photo
  is \<^verbatim>\<open>pending\<close>, and no run has been created or queued.  Whatever events the local queue
  raises afterwards, its concurrency is one and at most one run is in process.
\<close>

theorem start_creates_runs:
  assumes "reachable w" and "lookup (photo_objs w) r = Some p"
    and "get_path (heap w) (preferences p) [''body'', ''executions''] = Inr (Num (of_nat n))"
    and "get_path (heap w) (preferences p) [''advanced'', ''scaleMode''] = Inr sm"
  shows "(n = 0 \<longrightarrow> start r w = (Inr Returned, w))
       \<and> (0 < n \<and> (sm = Str ''cropjs'' \<longrightarrow> cropper p \<noteq> None \<and> crop_write_error w = None) \<longrightarrow>
            fst (start r w) = Inr Suspended
          \<and> (\<exists>p'. lookup (photo_objs (snd (start r w))) r = Some p' \<and> status p' = ''running''
                \<and> length (run_objs p') = length (run_objs p) + n
                \<and> length (runs p') = n \<and> run_ids p' = map Some [1..int n]
                \<and> (store (queue p) = [] \<longrightarrow>
                      map fst (store (queue p')) = [1..int n]
                    \<and> map snd (store (queue p')) = runs p')))
       \<and> (0 < n \<and> sm = Str ''cropjs'' \<longrightarrow>
            (cropper p = None \<longrightarrow>
               fst (start r w) =
                 Inl (AppError
                   ''This photo has the manual crop selected, you must open the Crop at least once to continue.''
                   (fullname (file p) @ '' it is not ready.'') ''warn''))
          \<and> (\<forall>e. cropper p \<noteq> None \<and> crop_write_error w = Some e \<longrightarrow>
               fst (start r w) = Inl (Rejected e))
          \<and> (cropper p = None \<or> crop_write_error w \<noteq> None \<longrightarrow>
               snd (start r w) = removeFromQueue r w
             \<and> photo_id p \<notin> fst ` set (store (nudify_queue (snd (start r w))))
             \<and> (\<exists>p'. lookup (photo_objs (snd (start r w))) r = Some p'
                   \<and> status p' = ''pending'' \<and> runs p' = runs p
                   \<and> length (run_objs p') = length (run_objs p)
                   \<and> set (store (queue p')) \<subseteq> set (store (queue p)))))
       \<and> (\<forall>evs w' p'.
             photo_steps r evs (snd (start r w)) = Inr w' \<and> lookup (photo_objs w') r = Some p'
             \<longrightarrow> concurrent (queue p') = 1 \<and> length (workers (queue p')) \<le> 1)"
proof -
  have a: "n = 0 \<longrightarrow> start r w = (Inr Returned, w)"
    using start_zero [OF assms(2) _ assms(4)] assms(3) by simp
  have b: "0 < n \<and> (sm = Str ''cropjs'' \<longrightarrow> cropper p \<noteq> None \<and> crop_write_error w = None) \<longrightarrow>
            fst (start r w) = Inr Suspended
          \<and> (\<exists>p'. lookup (photo_objs (snd (start r w))) r = Some p' \<and> status p' = ''running''
                \<and> length (run_objs p') = length (run_objs p) + n
                \<and> length (runs p') = n \<and> run_ids p' = map Some [1..int n]
                \<and> (store (queue p) = [] \<longrightarrow>
                      map fst (store (queue p')) = [1..int n]
                    \<and> map snd (store (queue p')) = runs p'))"
  proof (intro impI, elim conjE)
    assume n: "0 < n"
      and ok: "sm = Str ''cropjs'' \<longrightarrow> cropper p \<noteq> None \<and> crop_write_error w = None"
    have "lookup (photo_objs (snd (start r w))) r = Some (started n p)"
      using lookup_SomeD [OF assms(2)] by (simp add: start_set [OF assms(2) n assms(3,4) ok])
    moreover have "store (queue p) = [] \<longrightarrow>
                      map fst (store (queue (started n p))) = [1..int n]
                    \<and> map snd (store (queue (started n p))) = runs (started n p)"
      by (simp add: started_store started_fields)
    moreover have "length (run_objs (started n p)) = length (run_objs p) + n"
      by (simp add: started_def pushes_run_objs)
    ultimately show "fst (start r w) = Inr Suspended
          \<and> (\<exists>p'. lookup (photo_objs (snd (start r w))) r = Some p' \<and> status p' = ''running''
                \<and> length (run_objs p') = length (run_objs p) + n
                \<and> length (runs p') = n \<and> run_ids p' = map Some [1..int n]
                \<and> (store (queue p) = [] \<longrightarrow>
                      map fst (store (queue p')) = [1..int n]
                    \<and> map snd (store (queue p')) = runs p'))"
      by (simp add: start_set [OF assms(2) n assms(3,4) ok] started_fields)
  qed
  have c: "0 < n \<and> sm = Str ''cropjs'' \<longrightarrow>
            (cropper p = None \<longrightarrow>
               fst (start r w) =
                 Inl (AppError
                   ''This photo has the manual crop selected, you must open the Crop at least once to continue.''
                   (fullname (file p) @ '' it is not ready.'') ''warn''))
          \<and> (\<forall>e. cropper p \<noteq> None \<and> crop_write_error w = Some e \<longrightarrow>
               fst (start r w) = Inl (Rejected e))
          \<and> (cropper p = None \<or> crop_write_error w \<noteq> None \<longrightarrow>
               snd (start r w) = removeFromQueue r w
             \<and> photo_id p \<notin> fst ` set (store (nudify_queue (snd (start r w))))
             \<and> (\<exists>p'. lookup (photo_objs (snd (start r w))) r = Some p'
                   \<and> status p' = ''pending'' \<and> runs p' = runs p
                   \<and> length (run_objs p') = length (run_objs p)
                   \<and> set (store (queue p')) \<subseteq> set (store (queue p))))"
  proof (intro impI, elim conjE)
    assume n: "0 < n" and sm: "sm = Str ''cropjs''"
    note fails = start_crop_fails [OF assms(2) n assms(3) assms(4) [unfolded sm]]
    have c1: "cropper p = None \<longrightarrow>
               fst (start r w) =
                 Inl (AppError
                   ''This photo has the manual crop selected, you must open the Crop at least once to continue.''
                   (fullname (file p) @ '' it is not ready.'') ''warn'')"
      using fails [OF crop_no_cropper [OF assms(2)]] by simp
    have c2: "\<forall>e. cropper p \<noteq> None \<and> crop_write_error w = Some e \<longrightarrow>
               fst (start r w) = Inl (Rejected e)"
      using fails [OF crop_write_fails [OF assms(2)]] by simp
    have q: "photo_id p \<notin> fst ` set (store (nudify_queue (removeFromQueue r w)))"
      by (auto simp: removeFromQueue_global [OF assms(2)] q_delete_def)
    have ph: "\<exists>p'. lookup (photo_objs (removeFromQueue r w)) r = Some p'
                   \<and> status p' = ''pending'' \<and> runs p' = runs p
                   \<and> length (run_objs p') = length (run_objs p)
                   \<and> set (store (queue p')) \<subseteq> set (store (queue p))"
      using removeFromQueue_photo [OF assms(2)] by blast
    have s1: "snd (start r w) = removeFromQueue r w" if "cropper p = None"
      using fails [OF crop_no_cropper [OF assms(2) that]] by simp
    have s2: "snd (start r w) = removeFromQueue r w"
      if "cropper p \<noteq> None" "crop_write_error w = Some e" for e
      using fails [OF crop_write_fails [OF assms(2) that]] by simp
    have s: "snd (start r w) = removeFromQueue r w"
      if "cropper p = None \<or> crop_write_error w \<noteq> None"
      using that s1 s2 by (cases "cropper p"; cases "crop_write_error w") simp_all
    show "(cropper p = None \<longrightarrow>
               fst (start r w) =
                 Inl (AppError
                   ''This photo has the manual crop selected, you must open the Crop at least once to continue.''
                   (fullname (file p) @ '' it is not ready.'') ''warn''))
          \<and> (\<forall>e. cropper p \<noteq> None \<and> crop_write_error w = Some e \<longrightarrow>
               fst (start r w) = Inl (Rejected e))
          \<and> (cropper p = None \<or> crop_write_error w \<noteq> None \<longrightarrow>
               snd (start r w) = removeFromQueue r w
             \<and> photo_id p \<notin> fst ` set (store (nudify_queue (snd (start r w))))
             \<and> (\<exists>p'. lookup (photo_objs (snd (start r w))) r = Some p'
                   \<and> status p' = ''pending'' \<and> runs p' = runs p
                   \<and> length (run_objs p') = length (run_objs p)
                   \<and> set (store (queue p')) \<subseteq> set (store (queue p))))"
      using c1 c2 q ph s by simp
  qed
  have d: "\<forall>evs w' p'.
             photo_steps r evs (snd (start r w)) = Inr w' \<and> lookup (photo_objs w') r = Some p'
             \<longrightarrow> concurrent (queue p') = 1 \<and> length (workers (queue p')) \<le> 1"
  proof (intro allI impI, elim conjE)
    fix evs w' p'
    assume "photo_steps r evs (snd (start r w)) = Inr w'" "lookup (photo_objs w') r = Some p'"
    then show "concurrent (queue p') = 1 \<and> length (workers (queue p')) \<le> 1"
      using reachable_photo_ok [OF reachable_photo_steps [OF reachable.start [OF assms(1)]]]
      by (simp add: photo_ok_def)
  qed
  show ?thesis
    by (intro conjI a b c d)
qed

lemma crop_world_photo:
  "lookup (photo_objs (crop_world c)) 0 = Some (waiting_photo\<lparr>cropper := Some ()\<rparr>)"
  by (simp add: crop_world_def world_with_photo)

lemma crop_world_prefs:
  "get_path (heap (crop_world c)) (preferences (waiting_photo\<lparr>cropper := Some ()\<rparr>))
     [''body'', ''executions''] = Inr (Num (of_nat 2))"
  "get_path (heap (crop_world c)) (preferences (waiting_photo\<lparr>cropper := Some ()\<rparr>))
     [''advanced'', ''scaleMode''] = Inr (Str ''cropjs'')"
  using world_with_prefs [of 2 "''cropjs''"]
  by (simp_all add: crop_world_def del: get_path.simps)

lemma reachable_crop_world: "reachable (crop_world c)"
  unfolding crop_world_def
  by (intro reachable.environment reachable.open_crop reachable_world_with)

theorem start_creates_runs_witness:
  "reachable (world_with 3 ''auto-rescale'')
   \<and> lookup (photo_objs (world_with 3 ''auto-rescale'')) 0 = Some waiting_photo
   \<and> get_path (heap (world_with 3 ''auto-rescale'')) (preferences waiting_photo)
         [''body'', ''executions''] = Inr (Num (of_nat 3))
   \<and> fst (start 0 (world_with 3 ''auto-rescale'')) = Inr Suspended
   \<and> (\<exists>p'. lookup (photo_objs (snd (start 0 (world_with 3 ''auto-rescale'')))) 0 = Some p'
          \<and> status p' = ''running'' \<and> run_ids p' = [Some 1, Some 2, Some 3]
          \<and> map fst (store (queue p')) = [1, 2, 3])
   \<and> (\<exists>w' p'. photo_steps 0 [TaskStarted] (snd (start 0 (world_with 3 ''auto-rescale'')))
                  = Inr w'
          \<and> lookup (photo_objs w') 0 = Some p'
          \<and> concurrent (queue p') = 1 \<and> length (workers (queue p')) \<le> 1)
   \<and> get_path (heap (world_with 0 ''auto-rescale'')) (preferences waiting_photo)
         [''body'', ''executions''] = Inr (Num (of_nat 0))
   \<and> start 0 (world_with 0 ''auto-rescale'') = (Inr Returned, world_with 0 ''auto-rescale'')
   \<and> get_path (heap (world_with 2 ''cropjs'')) (preferences waiting_photo)
         [''advanced'', ''scaleMode''] = Inr (Str ''cropjs'')
   \<and> cropper waiting_photo = None
   \<and> md5 holiday_jpg \<in> fst ` set (store (nudify_queue (world_with 2 ''cropjs'')))
   \<and> fst (start 0 (world_with 2 ''cropjs'')) =
         Inl (AppError
           ''This photo has the manual crop selected, you must open the Crop at least once to continue.''
           ''holiday.jpg it is not ready.'' ''warn'')
   \<and> md5 holiday_jpg
         \<notin> fst ` set (store (nudify_queue (snd (start 0 (world_with 2 ''cropjs'')))))
   \<and> (\<exists>p'. lookup (photo_objs (snd (start 0 (world_with 2 ''cropjs'')))) 0 = Some p'
          \<and> status p' = ''pending'' \<and> runs p' = [] \<and> length (run_objs p') = 0)
   \<and> reachable (crop_world (Some (Str ''disk full'')))
   \<and> lookup (photo_objs (crop_world (Some (Str ''disk full'')))) 0
         = Some (waiting_photo\<lparr>cropper := Some ()\<rparr>)
   \<and> crop_write_error (crop_world (Some (Str ''disk full''))) = Some (Str ''disk full'')
   \<and> md5 holiday_jpg
         \<in> fst ` set (store (nudify_queue (crop_world (Some (Str ''disk full'')))))
   \<and> fst (start 0 (crop_world (Some (Str ''disk full'')))) = Inl (Rejected (Str ''disk full''))
   \<and> md5 holiday_jpg
         \<notin> fst ` set (store (nudify_queue (snd (start 0 (crop_world (Some (Str ''disk full'')))))))
   \<and> (\<exists>p'. lookup (photo_objs (snd (start 0 (crop_world (Some (Str ''disk full'')))))) 0
                = Some p'
          \<and> status p' = ''pending'' \<and> runs p' = [] \<and> length (run_objs p') = 0)
   \<and> crop_write_error (crop_world None) = None
   \<and> fst (start 0 (crop_world None)) = Inr Suspended
   \<and> (\<exists>p'. lookup (photo_objs (snd (start 0 (crop_world None)))) 0 = Some p'
          \<and> status p' = ''running'' \<and> run_ids p' = [Some 1, Some 2])"
proof -
  let ?W = "world_with 3 ''auto-rescale''"
  let ?Z = "world_with 0 ''auto-rescale''"
  let ?C = "world_with 2 ''cropjs''"
  let ?F = "crop_world (Some (Str ''disk full''))"
  let ?G = "crop_world None"
  let ?cp = "waiting_photo\<lparr>cropper := Some ()\<rparr>"
  have e3: "get_path (heap ?W) (preferences waiting_photo) [''body'', ''executions'']
              = Inr (Num (of_nat 3))"
    using world_with_prefs(1) [of 3 "''auto-rescale''"] by simp
  have e0: "get_path (heap ?Z) (preferences waiting_photo) [''body'', ''executions'']
              = Inr (Num (of_nat 0))"
    using world_with_prefs(1) [of 0 "''auto-rescale''"] by simp
  have e2: "get_path (heap ?C) (preferences waiting_photo) [''body'', ''executions'']
              = Inr (Num (of_nat 2))"
    using world_with_prefs(1) [of 2 "''cropjs''"] by simp
  note three = start_creates_runs [OF reachable_world_with world_with_photo e3 world_with_prefs(2)]
  note zero = start_creates_runs [OF reachable_world_with world_with_photo e0 world_with_prefs(2)]
  note unopened =
    start_creates_runs [OF reachable_world_with world_with_photo e2 world_with_prefs(2)]
  note unwritten =
    start_creates_runs [OF reachable_crop_world crop_world_photo crop_world_prefs,
      of "Some (Str ''disk full'')"]
  note written =
    start_creates_runs [OF reachable_crop_world crop_world_photo crop_world_prefs, of None]
  have idle: "store (queue waiting_photo) = []" "workers (queue waiting_photo) = []"
    "concurrent (queue waiting_photo) = 1" "run_objs waiting_photo = []"
    "runs waiting_photo = []" "cropper waiting_photo = None"
    "photo_id waiting_photo = md5 holiday_jpg" "fullname (file waiting_photo) = ''holiday.jpg''"
    by (simp_all add: waiting_photo_def setupQueue_def holiday_jpg_def)
  have u2: "[1..2] = [1, 2::int]"
    by (simp add: upto.simps)
  have s: "snd (start 0 ?W) =
             set_photo 0 (started 3 waiting_photo) [EmitUpdate, EmitUpdate, PhotoEmit 0 ''start''] ?W"
    using start_set [OF world_with_photo _ e3 world_with_prefs(2)] by simp
  have l: "lookup (photo_objs (snd (start 0 ?W))) 0 = Some (started 3 waiting_photo)"
    by (simp add: s) (simp add: world_with_eq)
  have "[0..<3] = [0, 1, 2::nat]"
    by (simp add: numeral_3_eq_3)
  then have st: "store (queue (started 3 waiting_photo)) = [(1, 0), (2, 1), (3, 2)]"
    by (simp add: started_store [OF idle(1)] started_run_objs idle(4) upto_1_3)
  obtain w' where w': "photo_steps 0 [TaskStarted] (snd (start 0 ?W)) = Inr w'"
    "lookup (photo_objs w') 0 = Some (upd_run 0 run_onStart
       ((started 3 waiting_photo)\<lparr>queue := q_take (queue (started 3 waiting_photo))\<rparr>))"
    using task_started_set [OF l st] lookup_SomeD [OF l]
    by (simp add: started_fields idle)
  have a: "fst (start 0 ?W) = Inr Suspended
        \<and> (\<exists>p'. lookup (photo_objs (snd (start 0 ?W))) 0 = Some p'
              \<and> status p' = ''running'' \<and> run_ids p' = [Some 1, Some 2, Some 3]
              \<and> map fst (store (queue p')) = [1, 2, 3])"
    using three [THEN conjunct2, THEN conjunct1] idle(1) by (auto simp: upto_1_3)
  have b: "\<exists>w' p'. photo_steps 0 [TaskStarted] (snd (start 0 ?W)) = Inr w'
          \<and> lookup (photo_objs w') 0 = Some p'
          \<and> concurrent (queue p') = 1 \<and> length (workers (queue p')) \<le> 1"
    using three [THEN conjunct2, THEN conjunct2, THEN conjunct2] w' by blast
  have c: "start 0 ?Z = (Inr Returned, ?Z)"
    using zero [THEN conjunct1] by simp
  have q: "md5 holiday_jpg \<in> fst ` set (store (nudify_queue ?C))"
    "md5 holiday_jpg \<in> fst ` set (store (nudify_queue ?F))"
    "crop_write_error ?F = Some (Str ''disk full'')" "crop_write_error ?G = None"
    by (simp_all add: crop_world_def world_with_eq)
  have d1: "fst (start 0 ?C) =
         Inl (AppError
           ''This photo has the manual crop selected, you must open the Crop at least once to continue.''
           ''holiday.jpg it is not ready.'' ''warn'')"
    using unopened [THEN conjunct2, THEN conjunct2, THEN conjunct1] idle(6,8) by simp
  have d2: "md5 holiday_jpg \<notin> fst ` set (store (nudify_queue (snd (start 0 ?C))))
          \<and> (\<exists>p'. lookup (photo_objs (snd (start 0 ?C))) 0 = Some p'
          \<and> status p' = ''pending'' \<and> runs p' = [] \<and> length (run_objs p') = 0)"
    using unopened [THEN conjunct2, THEN conjunct2, THEN conjunct1] idle(4,5,6,7) by auto
  have f1: "fst (start 0 ?F) = Inl (Rejected (Str ''disk full''))"
    using unwritten [THEN conjunct2, THEN conjunct2, THEN conjunct1] q(3) by simp
  have f2: "md5 holiday_jpg \<notin> fst ` set (store (nudify_queue (snd (start 0 ?F))))
          \<and> (\<exists>p'. lookup (photo_objs (snd (start 0 ?F))) 0 = Some p'
          \<and> status p' = ''pending'' \<and> runs p' = [] \<and> length (run_objs p') = 0)"
    using unwritten [THEN conjunct2, THEN conjunct2, THEN conjunct1] q(3) idle(4,5,7) by auto
  have g: "fst (start 0 ?G) = Inr Suspended
        \<and> (\<exists>p'. lookup (photo_objs (snd (start 0 ?G))) 0 = Some p'
              \<and> status p' = ''running'' \<and> run_ids p' = [Some 1, Some 2])"
    using written [THEN conjunct2, THEN conjunct1] q(4) by (auto simp: u2)
  show ?thesis
    by (intro conjI reachable_world_with world_with_photo e3 a [THEN conjunct1]
          a [THEN conjunct2] b e0 c world_with_prefs(2) idle(6) q(1) d1 d2 [THEN conjunct1]
          d2 [THEN conjunct2] reachable_crop_world crop_world_photo q(3) q(2) f1
          f2 [THEN conjunct1] f2 [THEN conjunct2] q(4) g [THEN conjunct1] g [THEN conjunct2])
qed

section \<open>The status after a cancellation\<close>

lemma removeFromQueue_then_drain:
  assumes "lookup (photo_objs w) r = Some p"
    and "workers (queue p) = [(i, a)]" and "getRunById p i = Some b"
    and "\<forall>j\<in>fst ` set (store (queue p)). Some j \<in> set (run_ids p)"
  shows "\<exists>w' p'. photo_steps r [TaskFailed i (Str ''cancelled''), Drain] (removeFromQueue r w)
                    = Inr w'
           \<and> lookup (photo_objs w') r = Some p' \<and> status p' = ''finished''"
proof -
  let ?w1 = "removeFromQueue r w"
  obtain p1 where p1: "lookup (photo_objs ?w1) r = Some p1"
    "workers (queue p1) = workers (queue p)" "runs p1 = runs p"
    "set (store (queue p1)) \<subseteq> set (store (queue p))"
    "\<forall>j\<in>fst ` set (store (queue p1)). Some j \<notin> set (run_ids p)"
    using removeFromQueue_photo [OF assms(1)] by blast
  have st: "store (queue p1) = []"
  proof (cases "store (queue p1)")
    case Nil
    then show ?thesis .
  next
    case (Cons x xs)
    then have x: "x \<in> set (store (queue p1))"
      by simp
    then have "Some (fst x) \<notin> set (run_ids p)"
      using p1(5) by simp
    moreover have "x \<in> set (store (queue p))"
      using x p1(4) by (rule subsetD [rotated])
    then have "Some (fst x) \<in> set (run_ids p)"
      using assms(4) by simp
    ultimately show ?thesis
      by simp
  qed
  have "getRunById p1 i = getRunById p i"
    using p1(3) by (simp add: getRunById_def)
  then have g: "getRunById p1 i = Some b"
    using assms(3) by simp
  let ?F = "\<lambda>p. upd_run b run_onFail (p\<lparr>queue := q_release i (queue p)\<rparr>)"
  let ?w2 = "upd_photo r ?F ?w1"
  have f: "task_failed r i (Str ''cancelled'') ?w1 = Inr ?w2"
    using p1(1,2) assms(2) g by (simp add: task_failed_def Let_def)
  have l2: "lookup (photo_objs ?w2) r = Some (?F p1)"
    using p1(1) by simp
  have idle: "store (queue (?F p1)) = []" "workers (queue (?F p1)) = []"
    using st p1(2) assms(2) by (simp_all add: q_release_def)
  have d: "drain r ?w2 = Inr (Photo_onFinish ''finished'' r ?w2)"
    using l2 idle by (rule drain_set)
  have "photo_steps r [TaskFailed i (Str ''cancelled''), Drain] ?w1
          = Inr (Photo_onFinish ''finished'' r ?w2)"
    by (simp add: f d)
  moreover have "\<exists>p'. lookup (photo_objs (Photo_onFinish ''finished'' r ?w2)) r = Some p'
                   \<and> status p' = ''finished''"
    using l2 by (simp add: lookup_Photo_onFinish del: lookup_upd_photo)
  ultimately show ?thesis
    by blast
qed

lemma running_world_photo:
  "\<exists>p. lookup (photo_objs running_world) 0 = Some p \<and> status p = ''running''
       \<and> photo_id p = md5 holiday_jpg
       \<and> workers (queue p) = [(1, 0)] \<and> store (queue p) = [(2, 1)]
       \<and> getRunById p 1 = Some 0 \<and> run_ids p = [Some 1, Some 2]"
proof -
  let ?W = "world_with 2 ''auto-rescale''"
  let ?W1 = "?W\<lparr>nudify_queue := q_take (nudify_queue ?W)\<rparr>"
  let ?p = "started 2 waiting_photo"
  let ?W2 = "set_photo 0 ?p [EmitUpdate, EmitUpdate, PhotoEmit 0 ''start''] ?W1"
  let ?q = "upd_run 0 run_onStart (?p\<lparr>queue := q_take (queue ?p)\<rparr>)"
  have idle: "store (queue waiting_photo) = []" "workers (queue waiting_photo) = []"
    "concurrent (queue waiting_photo) = 1" "run_objs waiting_photo = []"
    by (simp_all add: waiting_photo_def setupQueue_def)
  have l1: "lookup (photo_objs ?W1) 0 = Some waiting_photo"
    by (simp add: world_with_photo)
  have e: "get_path (heap ?W1) (preferences waiting_photo) [''body'', ''executions'']
             = Inr (Num (of_nat 2))"
    using world_with_prefs(1) [of 2 "''auto-rescale''"] by simp
  have m: "get_path (heap ?W1) (preferences waiting_photo) [''advanced'', ''scaleMode'']
             = Inr (Str ''auto-rescale'')"
    using world_with_prefs(2) [of 2 "''auto-rescale''"] by simp
  have s: "start 0 ?W1 = (Inr Suspended, ?W2)"
    using start_set [OF l1 _ e m] by simp
  have ws: "store (nudify_queue ?W) = [(md5 holiday_jpg, 0)]" "workers (nudify_queue ?W) = []"
    "concurrent (nudify_queue ?W) = 1"
    by (simp_all add: world_with_eq Nudify_setup_def)
  have g: "nudify_task_started ?W = Inr ?W2"
    by (simp add: nudify_task_started_def ws q_ready_def s)
  have "[0..<2] = [0, 1::nat]"
    by (simp add: numeral_2_eq_2)
  then have rs: "runs ?p = [0, 1]"
    by (simp add: started_run_objs idle(4))
  have u: "[1..2] = [1, 2::int]"
    by (simp add: upto.simps)
  have st: "store (queue ?p) = [(1, 0), (2, 1)]"
    using started_store [OF idle(1), of 2] by (simp add: rs u)
  have l2: "lookup (photo_objs ?W2) 0 = Some ?p"
    by simp (simp add: world_with_eq)
  have t: "task_started 0 ?W2 = Inr (set_photo 0 ?q [EngineStart 0 1] ?W2)"
    using task_started_set [OF l2 st] by (simp add: started_fields idle)
  have rw: "running_world = set_photo 0 ?q [EngineStart 0 1] ?W2"
    by (simp add: running_world_def g t)
  have l: "lookup (photo_objs running_world) 0 = Some ?q"
    by (simp add: rw) (simp add: world_with_eq)
  have ids: "run_ids ?q = [Some 1, Some 2]"
    using started_fields(3) [of 2 waiting_photo]
    by (simp add: run_ids_def lookup_upd_run rs u run_onStart_def option.map_comp comp_def)
  have "status ?q = ''running''" "photo_id ?q = md5 holiday_jpg"
    "workers (queue ?q) = [(1, 0)]" "store (queue ?q) = [(2, 1)]" "getRunById ?q 1 = Some 0"
    by (simp_all add: started_fields st q_take_def idle getRunById_def rs)
       (simp_all add: started_def waiting_photo_def)
  then show ?thesis
    using l ids by blast
qed




end
